theory Spec2Isabelle
  imports Main "HOL-Library.Sublist" "HOL-Library.Word"
begin

section \<open>The key-value service with prefix subscriptions\<close>

text \<open>
  The embedding follows the revision of the package \<^verbatim>\<open>service\<close> that holds the
  subscriber registry (\<^verbatim>\<open>src/unnamed/part_000\<close>: \<^verbatim>\<open>Get\<close>, \<^verbatim>\<open>Set\<close>, \<^verbatim>\<open>Subscribe\<close>,
  \<^verbatim>\<open>notifySubscribers\<close>, \<^verbatim>\<open>removeSubscriber\<close>). The revision kept under
  \<^verbatim>\<open>src/internal/service/service.go\<close> has the same \<^verbatim>\<open>Get\<close>, a \<^verbatim>\<open>Set\<close> that stores and
  answers in the same way but creates no event, and a \<^verbatim>\<open>Subscribe\<close> that is a stub; it is
  embedded as \<open>Set_v1\<close> and compared with \<open>Set\<close> below.

  Every handler runs its critical section under \<^verbatim>\<open>s.mu\<close> or inside one \<^verbatim>\<open>sync.Map\<close>
  call, so an operation is one atomic step on the state, and a run of the service is a
  sequence of such steps. \<^verbatim>\<open>Subscribe\<close>, which blocks for the life of the stream, is cut
  into its three atomic parts: registration, one receive of the delivery loop, and the
  deferred clean-up.
\<close>

subsection \<open>gRPC status codes and panics\<close>

datatype code = InvalidArgument | Internal

datatype error = Status code string | Panic string

subsection \<open>Messages\<close>

text \<open>
  Modelled from the spec: the protobuf messages of \<^verbatim>\<open>proto/store.proto\<close>, whose generated
  Go code is not in the repository. The fields are those the handlers read and write;
  \<^verbatim>\<open>ChangeEvent.Value\<close> is called \<open>EventValue\<close> here, since \<open>Value\<close> is the field of
  \<open>GetResponse\<close>. The spec names \<open>SET\<close> as the only change type in use and \<open>DELETE\<close> as
  one the schema allows. \<^verbatim>\<open>Timestamp\<close> is an \<^verbatim>\<open>int64\<close>.
\<close>

datatype ChangeEvent_ChangeType = ChangeEvent_SET | ChangeEvent_DELETE

record ChangeEvent =
  ChangeType :: ChangeEvent_ChangeType
  Key :: string
  EventValue :: string
  Timestamp :: "64 word"

record GetResponse =
  Value :: string
  Found :: bool

record SetResponse =
  Success :: bool
  Message :: string

subsection \<open>Buffered channels\<close>

text \<open>
  A Go channel \<^verbatim>\<open>chan *pb.ChangeEvent\<close> made with a capacity: the buffered elements, oldest
  first, the capacity, and whether \<^verbatim>\<open>close\<close> has run.
\<close>

record chan =
  buf :: "ChangeEvent list"
  cap :: nat
  is_closed :: bool

definition make_chan :: "nat \<Rightarrow> chan" where
  "make_chan n = \<lparr>buf = [], cap = n, is_closed = False\<rparr>"

text \<open>
  \<^verbatim>\<open>select { case ch <- e: ...; default: ... }\<close>: the send case runs when the buffer has
  room (\<open>True\<close>), the default case otherwise (\<open>False\<close>). A send on a closed channel
  panics.
\<close>

definition try_send :: "ChangeEvent \<Rightarrow> chan \<Rightarrow> error + (bool \<times> chan)" where
  "try_send e c =
     (if is_closed c then Inl (Panic ''send on closed channel'')
      else if length (buf c) < cap c then Inr (True, c\<lparr>buf := buf c @ [e]\<rparr>)
      else Inr (False, c))"

text \<open>
  \<^verbatim>\<open>case event := <-ch\<close> of a \<^verbatim>\<open>select\<close>: not ready on an empty open channel, the oldest
  element otherwise; an empty closed channel yields \<^verbatim>\<open>nil\<close>.
\<close>

datatype recv = Blocked | Received "ChangeEvent option" chan

definition try_recv :: "chan \<Rightarrow> recv" where
  "try_recv c =
     (case buf c of
        [] \<Rightarrow> if is_closed c then Received None c else Blocked
      | e # es \<Rightarrow> Received (Some e) (c\<lparr>buf := es\<rparr>))"

definition close_chan :: "chan \<Rightarrow> error + chan" where
  "close_chan c =
     (if is_closed c then Inl (Panic ''close of closed channel'')
      else Inr (c\<lparr>is_closed := True\<rparr>))"

subsection \<open>The service state\<close>

text \<open>
  \<^verbatim>\<open>sync.Map\<close> holds values of type \<^verbatim>\<open>any\<close>; \<open>AOther\<close> stands for every dynamic value that
  is not a string.
\<close>

datatype any = AString string | AOther nat

text \<open>
  A \<^verbatim>\<open>*subscriber\<close> is an address; the object it points to holds the pattern and the
  channel (the \<^verbatim>\<open>stream\<close> field belongs to the transport and is left out). Two
  subscribers are the same when their addresses are.
\<close>

type_synonym addr = nat

record subscriber =
  pattern :: string
  events :: chan

text \<open>
  The struct \<^verbatim>\<open>KVStoreService\<close> (without the mutex), together with the memory that holds
  the subscriber objects: \<open>heap\<close> maps the addresses allocated so far to their objects and
  \<open>next_addr\<close> is the address the next \<^verbatim>\<open>&subscriber{...}\<close> gets. The slices in
  \<open>subscribers\<close> are lists: each is held by the map alone, so the sharing of backing
  arrays that \<^verbatim>\<open>append\<close> produces is not observable.
\<close>

record KVStoreService =
  store :: "string \<rightharpoonup> any"
  subscribers :: "string \<rightharpoonup> addr list"
  subID :: int
  heap :: "addr \<rightharpoonup> subscriber"
  next_addr :: addr

definition NewKVStoreService :: KVStoreService where
  "NewKVStoreService =
     \<lparr>store = Map.empty, subscribers = Map.empty, subID = 0, heap = Map.empty, next_addr = 0\<rparr>"

text \<open>Reading a missing key of a Go map of slices gives the \<^verbatim>\<open>nil\<close> slice.\<close>

definition lookup_subs :: "(string \<rightharpoonup> addr list) \<Rightarrow> string \<Rightarrow> addr list" where
  "lookup_subs m p = (case m p of None \<Rightarrow> [] | Some subs \<Rightarrow> subs)"

text \<open>
  What a handler leaves behind: the gRPC status or panic, or its answer, and the state at
  that moment.
\<close>

type_synonym 'a result = "(error + 'a) \<times> KVStoreService"

subsection \<open>Get\<close>

definition Get :: "string \<Rightarrow> KVStoreService \<Rightarrow> GetResponse result" where
  "Get key s =
     (if key = [] then (Inl (Status InvalidArgument ''key cannot be empty''), s)
      else case store s key of
        None \<Rightarrow> (Inr \<lparr>Value = [], Found = False\<rparr>, s)
      | Some v \<Rightarrow>
          (case v of
             AString valueStr \<Rightarrow> (Inr \<lparr>Value = valueStr, Found = True\<rparr>, s)
           | AOther _ \<Rightarrow> (Inl (Status Internal ''internal storage error''), s)))"

subsection \<open>notifySubscribers\<close>

text \<open>\<^verbatim>\<open>strings.HasPrefix(s, prefix)\<close>: a comparison of the first \<^verbatim>\<open>len(prefix)\<close> bytes.\<close>

definition HasPrefix :: "string \<Rightarrow> string \<Rightarrow> bool" where
  "HasPrefix s pre = (length pre \<le> length s \<and> take (length pre) s = pre)"

text \<open>
  The inner loop over the subscribers of one pattern. Each run of the \<^verbatim>\<open>select\<close> is
  recorded with the subscriber and the case taken: \<open>True\<close> for the send, where the source
  counts \<^verbatim>\<open>notifiedCount++\<close>, and \<open>False\<close> for the default case, where it logs that the
  channel is full.
\<close>

type_synonym trace = "(addr \<times> bool) list"

fun notify_subs ::
  "ChangeEvent \<Rightarrow> addr list \<Rightarrow> trace \<times> (addr \<rightharpoonup> subscriber)
     \<Rightarrow> error option \<times> trace \<times> (addr \<rightharpoonup> subscriber)" where
  "notify_subs e [] (tr, h) = (None, tr, h)"
| "notify_subs e (sub # subs) (tr, h) =
     (case h sub of
        None \<Rightarrow> (Some (Panic ''invalid memory address or nil pointer dereference''), tr, h)
      | Some ob \<Rightarrow>
          (case try_send e (events ob) of
             Inl err \<Rightarrow> (Some err, tr, h)
           | Inr (ok, c) \<Rightarrow>
               notify_subs e subs (tr @ [(sub, ok)], h(sub \<mapsto> ob\<lparr>events := c\<rparr>))))"

text \<open>
  The outer loop \<^verbatim>\<open>for pattern, subs := range s.subscribers\<close>. Go visits every key of the
  map once, in an order it does not fix; the order of one call is the list \<open>order\<close>.
\<close>

fun notify_patterns ::
  "ChangeEvent \<Rightarrow> (string \<rightharpoonup> addr list) \<Rightarrow> string list \<Rightarrow> trace \<times> (addr \<rightharpoonup> subscriber)
     \<Rightarrow> error option \<times> trace \<times> (addr \<rightharpoonup> subscriber)" where
  "notify_patterns e m [] st = (None, st)"
| "notify_patterns e m (p # ps) st =
     (if HasPrefix (Key e) p then
        (case notify_subs e (lookup_subs m p) st of
           (Some err, st') \<Rightarrow> (Some err, st')
         | (None, st') \<Rightarrow> notify_patterns e m ps st')
      else notify_patterns e m ps st)"

definition range_order :: "string list \<Rightarrow> KVStoreService \<Rightarrow> bool" where
  "range_order order s = (distinct order \<and> set order = dom (subscribers s))"

definition notifySubscribers ::
  "string list \<Rightarrow> ChangeEvent \<Rightarrow> KVStoreService \<Rightarrow> trace result" where
  "notifySubscribers order event s =
     (case notify_patterns event (subscribers s) order ([], heap s) of
        (Some err, tr, h) \<Rightarrow> (Inl err, s\<lparr>heap := h\<rparr>)
      | (None, tr, h) \<Rightarrow> (Inr tr, s\<lparr>heap := h\<rparr>))"

subsection \<open>Set\<close>

text \<open>
  \<open>now\<close> is what \<^verbatim>\<open>time.Now().UnixMilli()\<close> returns in this call, read after the value
  is stored.
\<close>

definition Set ::
  "string list \<Rightarrow> 64 word \<Rightarrow> string \<Rightarrow> string \<Rightarrow> KVStoreService \<Rightarrow> SetResponse result" where
  "Set order now key val s =
     (if key = [] then (Inl (Status InvalidArgument ''key cannot be empty''), s)
      else
        let s1 = s\<lparr>store := (store s)(key \<mapsto> AString val)\<rparr>;
            event = \<lparr>ChangeType = ChangeEvent_SET, Key = key, EventValue = val,
                     Timestamp = now\<rparr>
        in case notifySubscribers order event s1 of
             (Inl err, s2) \<Rightarrow> (Inl err, s2)
           | (Inr tr, s2) \<Rightarrow>
               (Inr \<lparr>Success = True, Message = ''key stored successfully''\<rparr>, s2))"

text \<open>\<^verbatim>\<open>Set\<close> of \<^verbatim>\<open>src/internal/service/service.go\<close>, the revision without events.\<close>

definition Set_v1 :: "string \<Rightarrow> string \<Rightarrow> KVStoreService \<Rightarrow> SetResponse result" where
  "Set_v1 key val s =
     (if key = [] then (Inl (Status InvalidArgument ''key cannot be empty''), s)
      else (Inr \<lparr>Success = True, Message = ''key stored successfully''\<rparr>,
            s\<lparr>store := (store s)(key \<mapsto> AString val)\<rparr>))"

subsection \<open>Subscribe and removeSubscriber\<close>

text \<open>
  The first part of \<^verbatim>\<open>Subscribe\<close>: the check of the pattern, the new subscriber with a
  channel of capacity 100, and its registration. It yields the subscriber and
  \<^verbatim>\<open>subscriberCount\<close>.
\<close>

definition Subscribe_register :: "string \<Rightarrow> KVStoreService \<Rightarrow> (addr \<times> nat) result" where
  "Subscribe_register KeyPattern s =
     (if KeyPattern = [] then
        (Inl (Status InvalidArgument ''key_pattern cannot be empty''), s)
      else
        let sub = next_addr s;
            s1 = s\<lparr>heap := (heap s)(sub \<mapsto> \<lparr>pattern = KeyPattern, events = make_chan 100\<rparr>),
                   next_addr := Suc sub\<rparr>;
            subs = lookup_subs (subscribers s1) KeyPattern @ [sub];
            s2 = s1\<lparr>subscribers := (subscribers s1)(KeyPattern \<mapsto> subs)\<rparr>
        in (Inr (sub, length (lookup_subs (subscribers s2) KeyPattern)), s2))"

text \<open>
  The loop of \<^verbatim>\<open>removeSubscriber\<close>: the index of the first element that is the subscriber
  itself, where the source rebuilds the slice and breaks.
\<close>

fun remove_loop :: "addr \<Rightarrow> addr list \<Rightarrow> nat \<Rightarrow> nat option" where
  "remove_loop sub [] i = None"
| "remove_loop sub (existingSub # rest) i =
     (if existingSub = sub then Some i else remove_loop sub rest (Suc i))"

definition removeSubscriber :: "string \<Rightarrow> addr \<Rightarrow> KVStoreService \<Rightarrow> KVStoreService" where
  "removeSubscriber pat sub s =
     (let subs = lookup_subs (subscribers s) pat;
          s1 = (case remove_loop sub subs 0 of
                  None \<Rightarrow> s
                | Some i \<Rightarrow>
                    s\<lparr>subscribers := (subscribers s)(pat \<mapsto> take i subs @ drop (Suc i) subs)\<rparr>)
      in if length (lookup_subs (subscribers s1) pat) = 0
         then s1\<lparr>subscribers := (subscribers s1)(pat := None)\<rparr>
         else s1)"

text \<open>
  One turn of the delivery loop in which the receive case of the \<^verbatim>\<open>select\<close> runs: the
  oldest queued event leaves the channel of the subscriber and is handed to the stream.
  \<open>None\<close> when that case is not ready.
\<close>

definition Subscribe_recv ::
  "addr \<Rightarrow> KVStoreService \<Rightarrow> (ChangeEvent option \<times> KVStoreService) option" where
  "Subscribe_recv sub s =
     (case heap s sub of
        None \<Rightarrow> None
      | Some ob \<Rightarrow>
          (case try_recv (events ob) of
             Blocked \<Rightarrow> None
           | Received ev c \<Rightarrow> Some (ev, s\<lparr>heap := (heap s)(sub \<mapsto> ob\<lparr>events := c\<rparr>)\<rparr>)))"

text \<open>
  The deferred function of \<^verbatim>\<open>Subscribe\<close>: \<^verbatim>\<open>removeSubscriber(req.KeyPattern, sub)\<close>, then
  \<^verbatim>\<open>close(sub.events)\<close>.
\<close>

definition Subscribe_exit :: "string \<Rightarrow> addr \<Rightarrow> KVStoreService \<Rightarrow> unit result" where
  "Subscribe_exit KeyPattern sub s =
     (let s1 = removeSubscriber KeyPattern sub s
      in case heap s1 sub of
           None \<Rightarrow> (Inl (Panic ''invalid memory address or nil pointer dereference''), s1)
         | Some ob \<Rightarrow>
             (case close_chan (events ob) of
                Inl err \<Rightarrow> (Inl err, s1)
              | Inr c \<Rightarrow> (Inr (), s1\<lparr>heap := (heap s1)(sub \<mapsto> ob\<lparr>events := c\<rparr>)\<rparr>)))"

subsection \<open>Runs of the service\<close>

text \<open>
  One atomic step of a run. The order in which \<^verbatim>\<open>range\<close> visits the map and the reading
  of the clock are part of a \<open>Set\<close> step. \<open>OpRemove\<close> is a call of
  \<^verbatim>\<open>removeSubscriber\<close> with any arguments; the source calls it from the deferred function
  of \<^verbatim>\<open>Subscribe\<close> only, which is \<open>OpExit\<close>.
\<close>

datatype op =
    OpGet string
  | OpSet "string list" "64 word" string string
  | OpSubscribe string
  | OpRecv addr
  | OpRemove string addr
  | OpExit string addr

text \<open>
  A handler that answers, or returns a status, leaves its state behind and the service
  goes on; a panic ends the process.
\<close>

fun survive :: "'a result \<Rightarrow> KVStoreService option" where
  "survive (Inl (Panic msg), s) = None"
| "survive (Inl (Status c msg), s) = Some s"
| "survive (Inr x, s) = Some s"

fun exec :: "op \<Rightarrow> KVStoreService \<Rightarrow> KVStoreService option" where
  "exec (OpGet key) s = survive (Get key s)"
| "exec (OpSet order now key val) s = survive (Set order now key val s)"
| "exec (OpSubscribe KeyPattern) s = survive (Subscribe_register KeyPattern s)"
| "exec (OpRecv sub) s =
     (case Subscribe_recv sub s of None \<Rightarrow> Some s | Some (ev, s') \<Rightarrow> Some s')"
| "exec (OpRemove pat sub) s = Some (removeSubscriber pat sub s)"
| "exec (OpExit KeyPattern sub) s = survive (Subscribe_exit KeyPattern sub s)"

text \<open>
  What the Go runtime and the source guarantee of a step: \<^verbatim>\<open>range\<close> visits exactly the
  keys of the map, and the deferred function of a \<^verbatim>\<open>Subscribe\<close> call passes the pattern
  and the subscriber of that call.
\<close>

fun legal :: "op \<Rightarrow> KVStoreService \<Rightarrow> bool" where
  "legal (OpSet order now key val) s = range_order order s"
| "legal (OpExit KeyPattern sub) s =
     (case heap s sub of None \<Rightarrow> False | Some ob \<Rightarrow> pattern ob = KeyPattern)"
| "legal _ s = True"

fun run :: "op list \<Rightarrow> KVStoreService \<Rightarrow> KVStoreService option" where
  "run [] s = Some s"
| "run (x # xs) s = (case exec x s of None \<Rightarrow> None | Some s' \<Rightarrow> run xs s')"

inductive reachable :: "KVStoreService \<Rightarrow> bool" where
  init: "reachable NewKVStoreService"
| step: "reachable s \<Longrightarrow> legal x s \<Longrightarrow> exec x s = Some s' \<Longrightarrow> reachable s'"

fun writes_key :: "string \<Rightarrow> op \<Rightarrow> bool" where
  "writes_key k (OpSet order now key val) = (key = k)"
| "writes_key k _ = False"

text \<open>
  A writer that issues \<^verbatim>\<open>Set\<close> calls one after the other, each with the order of its
  \<^verbatim>\<open>range\<close>, its clock reading, its key and its value, and stops at the first call that
  does not answer.
\<close>

type_synonym set_call = "string list \<times> 64 word \<times> string \<times> string"

fun Set_seq :: "set_call list \<Rightarrow> KVStoreService \<Rightarrow> error + KVStoreService" where
  "Set_seq [] s = Inr s"
| "Set_seq ((order, now, key, val) # calls) s =
     (case Set order now key val s of
        (Inl err, s') \<Rightarrow> Inl err
      | (Inr resp, s') \<Rightarrow> Set_seq calls s')"

subsection \<open>Notions used in the statements\<close>

text \<open>The event a successful \<open>Set\<close> builds.\<close>

definition SET_event :: "64 word \<Rightarrow> string \<Rightarrow> string \<Rightarrow> ChangeEvent" where
  "SET_event now key val =
     \<lparr>ChangeType = ChangeEvent_SET, Key = key, EventValue = val, Timestamp = now\<rparr>"

fun event_of :: "set_call \<Rightarrow> ChangeEvent" where
  "event_of (order, now, key, val) = SET_event now key val"

text \<open>The queue of a subscriber, oldest event first.\<close>

definition queue_of :: "KVStoreService \<Rightarrow> addr \<Rightarrow> ChangeEvent list" where
  "queue_of s a = (case heap s a of None \<Rightarrow> [] | Some ob \<Rightarrow> buf (events ob))"

text \<open>Drop-on-full: the event joins the tail of the channel if there is room.\<close>

definition enqueue :: "ChangeEvent \<Rightarrow> chan \<Rightarrow> chan" where
  "enqueue e c = (if length (buf c) < cap c then c\<lparr>buf := buf c @ [e]\<rparr> else c)"

definition deliver :: "ChangeEvent \<Rightarrow> subscriber \<Rightarrow> subscriber" where
  "deliver e ob = ob\<lparr>events := enqueue e (events ob)\<rparr>"

definition deliver_to ::
  "ChangeEvent \<Rightarrow> addr set \<Rightarrow> (addr \<rightharpoonup> subscriber) \<Rightarrow> (addr \<rightharpoonup> subscriber)" where
  "deliver_to e A h = (\<lambda>a. if a \<in> A then map_option (deliver e) (h a) else h a)"

definition has_room :: "(addr \<rightharpoonup> subscriber) \<Rightarrow> addr \<Rightarrow> bool" where
  "has_room h a =
     (case h a of None \<Rightarrow> False | Some ob \<Rightarrow> length (buf (events ob)) < cap (events ob))"

definition is_open :: "(addr \<rightharpoonup> subscriber) \<Rightarrow> addr \<Rightarrow> bool" where
  "is_open h a = (case h a of None \<Rightarrow> False | Some ob \<Rightarrow> \<not> is_closed (events ob))"

text \<open>
  The subscribers that one call of \<^verbatim>\<open>notifySubscribers\<close> sends to, in the order of its
  \<^verbatim>\<open>select\<close> statements.
\<close>

definition targets :: "string \<Rightarrow> (string \<rightharpoonup> addr list) \<Rightarrow> string list \<Rightarrow> addr list" where
  "targets k m ps = concat (map (lookup_subs m) (filter (HasPrefix k) ps))"

text \<open>
  The invariant of the service: every entry of the registry has a non-empty pattern and
  a non-empty list without repetition, whose subscribers are allocated, carry the pattern
  they are registered under and have an open channel; every allocated subscriber lies
  below \<open>next_addr\<close> and its channel has capacity 100 and holds at most 100 events.
\<close>

definition consistent :: "KVStoreService \<Rightarrow> bool" where
  "consistent s \<longleftrightarrow>
     (\<forall>p subs. subscribers s p = Some subs \<longrightarrow>
        p \<noteq> [] \<and> subs \<noteq> [] \<and> distinct subs \<and>
        (\<forall>a\<in>set subs. \<exists>ob. heap s a = Some ob \<and> pattern ob = p \<and>
                           \<not> is_closed (events ob))) \<and>
     (\<forall>a ob. heap s a = Some ob \<longrightarrow>
        a < next_addr s \<and> cap (events ob) = 100 \<and> length (buf (events ob)) \<le> 100)"

definition strings_only :: "KVStoreService \<Rightarrow> bool" where
  "strings_only s \<longleftrightarrow> (\<forall>k v. store s k = Some v \<longrightarrow> (\<exists>str. v = AString str))"

text \<open>
  The service after \<^verbatim>\<open>Subscribe("user:")\<close> and then \<^verbatim>\<open>Subscribe("user:1")\<close> on a new
  service: the first subscriber is at address 0, the second at address 1.
\<close>

definition two_subscribers :: KVStoreService where
  "two_subscribers =
     snd (Subscribe_register ''user:1'' (snd (Subscribe_register ''user:'' NewKVStoreService)))"

text \<open>
  A new service after one \<^verbatim>\<open>Subscribe("k")\<close>, and after a second \<^verbatim>\<open>Subscribe("k")\<close>:
  two subscribers, at the addresses 0 and 1, under the same pattern.
\<close>

definition one_subscriber :: KVStoreService where
  "one_subscriber = snd (Subscribe_register ''k'' NewKVStoreService)"

definition shared_prefix :: KVStoreService where
  "shared_prefix = snd (Subscribe_register ''k'' one_subscriber)"

section \<open>Properties\<close>

subsection \<open>What one call of notifySubscribers does\<close>

lemma HasPrefix_iff_prefix: "HasPrefix s pre \<longleftrightarrow> prefix pre s"
  unfolding HasPrefix_def prefix_def
  by (metis append_eq_conv_conj append_take_drop_id le_add1 length_append)

lemma try_send_open:
  "\<not> is_closed c \<Longrightarrow> try_send e c = Inr (length (buf c) < cap c, enqueue e c)"
  by (simp add: try_send_def enqueue_def)

lemma is_open_deliver_to [simp]: "is_open (deliver_to e A h) a = is_open h a"
  by (auto simp: is_open_def deliver_to_def deliver_def enqueue_def split: option.splits)

lemma deliver_to_empty [simp]: "deliver_to e {} h = h"
  by (simp add: deliver_to_def)

lemma has_room_deliver_to: "a \<notin> A \<Longrightarrow> has_room (deliver_to e A h) a = has_room h a"
  by (simp add: has_room_def deliver_to_def)

lemma deliver_to_union:
  "A \<inter> B = {} \<Longrightarrow> deliver_to e B (deliver_to e A h) = deliver_to e (A \<union> B) h"
  by (auto simp: deliver_to_def fun_eq_iff)

lemma notify_subs_effect:
  "distinct subs \<Longrightarrow> \<forall>a\<in>set subs. is_open h a \<Longrightarrow>
   notify_subs e subs (tr, h) =
     (None, tr @ map (\<lambda>a. (a, has_room h a)) subs, deliver_to e (set subs) h)"
proof (induction subs arbitrary: tr h)
  case Nil
  then show ?case by simp
next
  case (Cons a subs)
  from Cons.prems obtain ob where ob: "h a = Some ob" "\<not> is_closed (events ob)"
    by (auto simp: is_open_def split: option.splits)
  let ?h1 = "h(a \<mapsto> ob\<lparr>events := enqueue e (events ob)\<rparr>)"
  have h1: "?h1 = deliver_to e {a} h"
    using ob by (auto simp: deliver_to_def deliver_def fun_eq_iff)
  have open1: "\<forall>x\<in>set subs. is_open ?h1 x"
    using Cons.prems unfolding h1 by simp
  have room1: "map (\<lambda>x. (x, has_room ?h1 x)) subs = map (\<lambda>x. (x, has_room h x)) subs"
  proof (rule map_cong[OF refl])
    fix x assume "x \<in> set subs"
    with Cons.prems have "x \<notin> {a}" by auto
    then show "(x, has_room ?h1 x) = (x, has_room h x)"
      unfolding h1 by (simp add: has_room_deliver_to)
  qed
  have "notify_subs e (a # subs) (tr, h) = notify_subs e subs (tr @ [(a, has_room h a)], ?h1)"
    using ob by (simp add: try_send_open has_room_def)
  also have "\<dots> = (None, (tr @ [(a, has_room h a)]) @ map (\<lambda>x. (x, has_room ?h1 x)) subs,
                     deliver_to e (set subs) ?h1)"
    using Cons.prems by (intro Cons.IH[OF _ open1]) simp
  also have "deliver_to e (set subs) ?h1 = deliver_to e (set (a # subs)) h"
    unfolding h1 using Cons.prems by (subst deliver_to_union) auto
  finally show ?case unfolding room1 by (simp del: notify_subs.simps)
qed

lemma targets_Nil [simp]: "targets k m [] = []"
  by (simp add: targets_def)

lemma targets_Cons:
  "targets k m (p # ps) = (if HasPrefix k p then lookup_subs m p else []) @ targets k m ps"
  by (simp add: targets_def)

lemma set_targets:
  "set (targets k m ps) = (\<Union>p\<in>{p \<in> set ps. HasPrefix k p}. set (lookup_subs m p))"
  by (auto simp: targets_def)

lemma notify_subs_append:
  "notify_subs e (xs @ ys) st =
     (case notify_subs e xs st of
        (Some err, st') \<Rightarrow> (Some err, st')
      | (None, st') \<Rightarrow> notify_subs e ys st')"
proof (induction xs arbitrary: st)
  case Nil
  obtain tr h where "st = (tr, h)" by (cases st)
  then show ?case by simp
next
  case (Cons a xs)
  obtain tr h where st: "st = (tr, h)" by (cases st)
  show ?case unfolding st
    by (simp add: Cons.IH split: option.splits sum.splits prod.splits)
qed

lemma notify_patterns_targets:
  "notify_patterns e m ps st = notify_subs e (targets (Key e) m ps) st"
proof (induction ps arbitrary: st)
  case Nil
  obtain tr h where "st = (tr, h)" by (cases st)
  then show ?case by simp
next
  case (Cons p ps)
  show ?case
  proof (cases "HasPrefix (Key e) p")
    case True
    then show ?thesis
      by (cases "notify_subs e (lookup_subs m p) st")
         (simp add: targets_Cons notify_subs_append Cons.IH split: option.splits)
  next
    case False
    then show ?thesis by (simp add: targets_Cons Cons.IH)
  qed
qed

lemma notifySubscribers_effect:
  assumes "distinct (targets (Key e) (subscribers s) order)"
    and "\<forall>a\<in>set (targets (Key e) (subscribers s) order). is_open (heap s) a"
  shows "notifySubscribers order e s =
     (Inr (map (\<lambda>a. (a, has_room (heap s) a)) (targets (Key e) (subscribers s) order)),
      s\<lparr>heap := deliver_to e (set (targets (Key e) (subscribers s) order)) (heap s)\<rparr>)"
  using notify_subs_effect[OF assms, of e "[]"]
  by (simp add: notifySubscribers_def notify_patterns_targets)

subsection \<open>removeSubscriber takes out the first occurrence\<close>

lemma remove_loop_None: "remove_loop a xs i = None \<longleftrightarrow> a \<notin> set xs"
  by (induction xs arbitrary: i) auto

lemma remove_loop_Some:
  "remove_loop a xs i = Some j \<Longrightarrow>
     i \<le> j \<and> take (j - i) xs @ drop (Suc (j - i)) xs = remove1 a xs"
proof (induction xs arbitrary: i)
  case Nil
  then show ?case by simp
next
  case (Cons x xs)
  show ?case
  proof (cases "x = a")
    case True
    with Cons.prems show ?thesis by simp
  next
    case False
    with Cons.prems have r: "remove_loop a xs (Suc i) = Some j" by simp
    from Cons.IH[OF r] have le: "Suc i \<le> j"
      and eq: "take (j - Suc i) xs @ drop (Suc (j - Suc i)) xs = remove1 a xs" by auto
    from le have "j - i = Suc (j - Suc i)" by arith
    with eq False le show ?thesis by simp
  qed
qed

lemma removeSubscriber_remove1:
  "removeSubscriber p a s =
     s\<lparr>subscribers :=
         (if remove1 a (lookup_subs (subscribers s) p) = [] then (subscribers s)(p := None)
          else (subscribers s)(p \<mapsto> remove1 a (lookup_subs (subscribers s) p)))\<rparr>"
proof (cases "remove_loop a (lookup_subs (subscribers s) p) 0")
  case None
  then have notin: "a \<notin> set (lookup_subs (subscribers s) p)"
    by (simp add: remove_loop_None)
  then have r: "remove1 a (lookup_subs (subscribers s) p) = lookup_subs (subscribers s) p"
    by (simp add: remove1_idem)
  show ?thesis
  proof (cases "subscribers s p")
    case N: None
    then show ?thesis using None
      by (simp add: removeSubscriber_def lookup_subs_def)
  next
    case (Some subs)
    then have "(subscribers s)(p \<mapsto> subs) = subscribers s" by (simp add: fun_upd_idem)
    then show ?thesis using None Some r
      by (simp add: removeSubscriber_def lookup_subs_def)
  qed
next
  case (Some i)
  from remove_loop_Some[OF Some]
  have eq: "take i (lookup_subs (subscribers s) p) @ drop (Suc i) (lookup_subs (subscribers s) p)
            = remove1 a (lookup_subs (subscribers s) p)" by simp
  show ?thesis using Some eq
    by (simp add: removeSubscriber_def Let_def lookup_subs_def)
qed

subsection \<open>The invariant holds in every reachable state\<close>

lemma in_lookup_subs:
  "a \<in> set (lookup_subs m p) \<longleftrightarrow> (\<exists>subs. m p = Some subs \<and> a \<in> set subs)"
  by (cases "m p") (auto simp: lookup_subs_def)

lemma consistent_registered:
  "consistent s \<Longrightarrow> a \<in> set (lookup_subs (subscribers s) p) \<Longrightarrow>
     \<exists>ob. heap s a = Some ob \<and> pattern ob = p \<and> \<not> is_closed (events ob)"
  unfolding consistent_def in_lookup_subs by blast

lemma consistent_distinct_subs:
  "consistent s \<Longrightarrow> distinct (lookup_subs (subscribers s) p)"
  by (auto simp: consistent_def lookup_subs_def split: option.splits)

lemma consistent_targets_distinct:
  assumes c: "consistent s"
  shows "distinct ps \<Longrightarrow> distinct (targets k (subscribers s) ps)"
proof (induction ps)
  case Nil
  then show ?case by simp
next
  case (Cons p ps)
  have disj: "set (lookup_subs (subscribers s) p) \<inter> set (targets k (subscribers s) ps) = {}"
  proof (rule ccontr)
    assume "\<not> ?thesis"
    then obtain a where a1: "a \<in> set (lookup_subs (subscribers s) p)"
      and a2: "a \<in> set (targets k (subscribers s) ps)" by blast
    from a2 obtain q where q: "q \<in> set ps" "a \<in> set (lookup_subs (subscribers s) q)"
      by (auto simp: set_targets)
    from consistent_registered[OF c a1] consistent_registered[OF c q(2)]
    have "p = q" by auto
    with q(1) Cons.prems show False by simp
  qed
  show ?case
    using Cons disj consistent_distinct_subs[OF c, of p] by (simp add: targets_Cons)
qed

lemma consistent_targets_open:
  assumes c: "consistent s"
  shows "\<forall>a\<in>set (targets k (subscribers s) ps). is_open (heap s) a"
proof
  fix a assume "a \<in> set (targets k (subscribers s) ps)"
  then obtain q where "a \<in> set (lookup_subs (subscribers s) q)"
    by (auto simp: set_targets)
  from consistent_registered[OF c this] show "is_open (heap s) a"
    by (auto simp: is_open_def)
qed

lemma consistent_store_update:
  "consistent (s\<lparr>store := st\<rparr>) = consistent s"
  by (simp add: consistent_def)

lemma Set_effect:
  assumes k: "key \<noteq> []" and c: "consistent s" and d: "distinct order"
  shows "Set order now key val s =
     (Inr \<lparr>Success = True, Message = ''key stored successfully''\<rparr>,
      s\<lparr>store := (store s)(key \<mapsto> AString val),
        heap := deliver_to (SET_event now key val)
                  (set (targets key (subscribers s) order)) (heap s)\<rparr>)"
proof -
  let ?s1 = "s\<lparr>store := (store s)(key \<mapsto> AString val)\<rparr>"
  let ?e = "SET_event now key val"
  have c1: "consistent ?s1" using c by (simp add: consistent_store_update)
  have K: "Key ?e = key" by (simp add: SET_event_def)
  have "notifySubscribers order ?e ?s1 =
     (Inr (map (\<lambda>a. (a, has_room (heap ?s1) a)) (targets (Key ?e) (subscribers ?s1) order)),
      ?s1\<lparr>heap := deliver_to ?e (set (targets (Key ?e) (subscribers ?s1) order)) (heap ?s1)\<rparr>)"
    by (rule notifySubscribers_effect)
       (use consistent_targets_distinct[OF c1 d] consistent_targets_open[OF c1] in auto)
  then show ?thesis using k
    by (simp add: Set_def Let_def K SET_event_def[symmetric])
qed

lemma consistent_deliver_to:
  assumes c: "consistent s"
  shows "consistent (s\<lparr>heap := deliver_to e A (heap s)\<rparr>)"
  unfolding consistent_def
proof (intro conjI allI impI)
  fix p subs assume "subscribers (s\<lparr>heap := deliver_to e A (heap s)\<rparr>) p = Some subs"
  then have sp: "subscribers s p = Some subs" by simp
  with c show "p \<noteq> []" "subs \<noteq> []" "distinct subs" unfolding consistent_def by blast+
  show "\<forall>a\<in>set subs. \<exists>ob. heap (s\<lparr>heap := deliver_to e A (heap s)\<rparr>) a = Some ob \<and>
            pattern ob = p \<and> \<not> is_closed (events ob)"
  proof
    fix a assume "a \<in> set subs"
    with c sp obtain ob where "heap s a = Some ob" "pattern ob = p" "\<not> is_closed (events ob)"
      unfolding consistent_def by blast
    then show "\<exists>ob. heap (s\<lparr>heap := deliver_to e A (heap s)\<rparr>) a = Some ob \<and>
            pattern ob = p \<and> \<not> is_closed (events ob)"
      by (auto simp: deliver_to_def deliver_def enqueue_def)
  qed
next
  fix a ob assume h: "heap (s\<lparr>heap := deliver_to e A (heap s)\<rparr>) a = Some ob"
  then obtain ob0 where ob0: "heap s a = Some ob0" and ob: "ob = ob0 \<or> ob = deliver e ob0"
    by (auto simp: deliver_to_def split: if_splits)
  from c ob0 have b: "a < next_addr s" "cap (events ob0) = 100" "length (buf (events ob0)) \<le> 100"
    unfolding consistent_def by blast+
  from b ob show "a < next_addr (s\<lparr>heap := deliver_to e A (heap s)\<rparr>)"
    "cap (events ob) = 100" "length (buf (events ob)) \<le> 100"
    by (auto simp: deliver_def enqueue_def)
qed

lemma consistent_Set:
  assumes c: "consistent s" and d: "distinct order"
  shows "consistent (snd (Set order now key val s))"
proof (cases "key = []")
  case True
  then show ?thesis using c by (simp add: Set_def)
next
  case False
  have "consistent (s\<lparr>store := (store s)(key \<mapsto> AString val)\<rparr>)"
    using c by (simp add: consistent_store_update)
  from consistent_deliver_to[OF this]
  show ?thesis by (simp add: Set_effect[OF False c d])
qed

lemma consistent_init: "consistent NewKVStoreService"
  by (simp add: consistent_def NewKVStoreService_def)

lemma consistent_Subscribe_register:
  assumes c: "consistent s"
  shows "consistent (snd (Subscribe_register p s))"
proof (cases "p = []")
  case True
  then show ?thesis using c by (simp add: Subscribe_register_def)
next
  case False
  let ?a = "next_addr s"
  let ?L = "lookup_subs (subscribers s) p"
  have fresh: "heap s ?a = None"
    using c unfolding consistent_def by (cases "heap s ?a") auto
  have notin: "?a \<notin> set (lookup_subs (subscribers s) q)" for q
    using consistent_registered[OF c, of ?a q] fresh by auto
  have s': "snd (Subscribe_register p s) =
     s\<lparr>heap := (heap s)(?a \<mapsto> \<lparr>pattern = p, events = make_chan 100\<rparr>),
       next_addr := Suc ?a, subscribers := (subscribers s)(p \<mapsto> ?L @ [?a])\<rparr>"
    using False by (simp add: Subscribe_register_def Let_def)
  show ?thesis unfolding s' consistent_def
  proof (intro conjI allI impI, goal_cases)
    case (1 q subs)
    then show ?case using False c unfolding consistent_def by (auto split: if_splits)
  next
    case (2 q subs)
    then show ?case by (auto split: if_splits simp: consistent_def c[unfolded consistent_def])
  next
    case (3 q subs)
    then show ?case
      using consistent_distinct_subs[OF c, of q] notin[of p]
      by (auto split: if_splits simp: lookup_subs_def)
  next
    case (4 q subs)
    show ?case
    proof
      fix a assume a: "a \<in> set subs"
      show "\<exists>ob. heap (s\<lparr>heap := (heap s)(?a \<mapsto> \<lparr>pattern = p, events = make_chan 100\<rparr>),
                 next_addr := Suc ?a, subscribers := (subscribers s)(p \<mapsto> ?L @ [?a])\<rparr>) a = Some ob \<and>
             pattern ob = q \<and> \<not> is_closed (events ob)"
      proof (cases "a = ?a")
        case True
        with a 4 notin[of q] have "q = p"
          by (auto split: if_splits simp: in_lookup_subs)
        with True show ?thesis by (simp add: make_chan_def)
      next
        case False
        with a 4 have "a \<in> set (lookup_subs (subscribers s) q)"
          by (auto split: if_splits simp: in_lookup_subs)
        from consistent_registered[OF c this] False show ?thesis by simp
      qed
    qed
  next
    case (5 a ob)
    then show ?case using c unfolding consistent_def
      by (auto split: if_splits simp: less_Suc_eq)
  next
    case (6 a ob)
    then show ?case using c unfolding consistent_def
      by (auto split: if_splits simp: make_chan_def)
  next
    case (7 a ob)
    then show ?case using c unfolding consistent_def
      by (auto split: if_splits simp: make_chan_def)
  qed
qed

lemma survive_snd: "survive r = Some s' \<Longrightarrow> s' = snd r"
  by (cases r rule: survive.cases) auto

lemma Get_state [simp]: "snd (Get key s) = s"
  by (simp add: Get_def split: option.splits any.splits)

lemma consistent_removeSubscriber:
  assumes c: "consistent s"
  shows "consistent (removeSubscriber p a s)"
proof -
  let ?L = "lookup_subs (subscribers s) p"
  have sub: "subscribers (removeSubscriber p a s) q = Some subs \<Longrightarrow>
        subs \<noteq> [] \<and> distinct subs \<and> set subs \<subseteq> set (lookup_subs (subscribers s) q) \<and>
        (\<exists>subs0. subscribers s q = Some subs0)" for q subs
    using consistent_distinct_subs[OF c, of p] set_remove1_subset[of a ?L]
    by (cases "subscribers s p")
       (auto simp: removeSubscriber_remove1 lookup_subs_def consistent_distinct_subs[OF c]
             c[unfolded consistent_def] split: if_splits)
  have hp: "heap (removeSubscriber p a s) = heap s" "next_addr (removeSubscriber p a s) = next_addr s"
    by (simp_all add: removeSubscriber_remove1)
  show ?thesis unfolding consistent_def hp
  proof (intro conjI allI impI ballI)
    fix q subs assume q: "subscribers (removeSubscriber p a s) q = Some subs"
    from sub[OF q] show "subs \<noteq> []" "distinct subs" by auto
    from sub[OF q] c show "q \<noteq> []" unfolding consistent_def by blast
    fix x assume "x \<in> set subs"
    with sub[OF q] have "x \<in> set (lookup_subs (subscribers s) q)" by auto
    from consistent_registered[OF c this]
    show "\<exists>ob. heap s x = Some ob \<and> pattern ob = q \<and> \<not> is_closed (events ob)" .
  next
    fix x ob assume "heap s x = Some ob"
    with c show "x < next_addr s" "cap (events ob) = 100" "length (buf (events ob)) \<le> 100"
      unfolding consistent_def by blast+
  qed
qed

lemma consistent_heap_update:
  assumes c: "consistent s" and h: "heap s a = Some ob"
    and p: "pattern ob' = pattern ob" and k: "cap (events ob') = cap (events ob)"
    and l: "length (buf (events ob')) \<le> length (buf (events ob))"
    and o: "is_closed (events ob') \<Longrightarrow> \<forall>q. a \<notin> set (lookup_subs (subscribers s) q)"
  shows "consistent (s\<lparr>heap := (heap s)(a \<mapsto> ob')\<rparr>)"
  unfolding consistent_def
proof (intro conjI allI impI ballI)
  fix q subs assume "subscribers (s\<lparr>heap := (heap s)(a \<mapsto> ob')\<rparr>) q = Some subs"
  then have q: "subscribers s q = Some subs" by simp
  with c show "q \<noteq> []" "subs \<noteq> []" "distinct subs" unfolding consistent_def by blast+
  fix x assume x: "x \<in> set subs"
  with q have xr: "x \<in> set (lookup_subs (subscribers s) q)" by (simp add: in_lookup_subs)
  from consistent_registered[OF c xr] obtain obx where
    obx: "heap s x = Some obx" "pattern obx = q" "\<not> is_closed (events obx)" by blast
  show "\<exists>ob. heap (s\<lparr>heap := (heap s)(a \<mapsto> ob')\<rparr>) x = Some ob \<and> pattern ob = q \<and>
          \<not> is_closed (events ob)"
  proof (cases "x = a")
    case True
    with xr o have "\<not> is_closed (events ob')" by blast
    with True obx h p show ?thesis by simp
  next
    case False
    with obx show ?thesis by simp
  qed
next
  fix x obx assume "heap (s\<lparr>heap := (heap s)(a \<mapsto> ob')\<rparr>) x = Some obx"
  then have "(x = a \<and> obx = ob') \<or> heap s x = Some obx" by (auto split: if_splits)
  moreover from c h have "a < next_addr s" "cap (events ob) = 100" "length (buf (events ob)) \<le> 100"
    unfolding consistent_def by blast+
  moreover have "heap s x = Some obx \<Longrightarrow>
      x < next_addr s \<and> cap (events obx) = 100 \<and> length (buf (events obx)) \<le> 100"
    using c unfolding consistent_def by blast
  ultimately show "x < next_addr (s\<lparr>heap := (heap s)(a \<mapsto> ob')\<rparr>)"
    "cap (events obx) = 100" "length (buf (events obx)) \<le> 100"
    using k l by auto
qed

lemma consistent_Subscribe_recv:
  assumes c: "consistent s" and r: "Subscribe_recv a s = Some (ev, s')"
  shows "consistent s'"
proof -
  from r obtain ob c' where ob: "heap s a = Some ob"
    and tr: "try_recv (events ob) = Received ev c'"
    and s': "s' = s\<lparr>heap := (heap s)(a \<mapsto> ob\<lparr>events := c'\<rparr>)\<rparr>"
    by (auto simp: Subscribe_recv_def split: option.splits recv.splits)
  from tr have "cap c' = cap (events ob)" "length (buf c') \<le> length (buf (events ob))"
    "is_closed c' = is_closed (events ob)"
    by (auto simp: try_recv_def split: list.splits if_splits)
  moreover have "is_closed (events ob) \<Longrightarrow> \<forall>q. a \<notin> set (lookup_subs (subscribers s) q)"
    using consistent_registered[OF c, of a] ob by auto
  ultimately show ?thesis unfolding s'
    by (intro consistent_heap_update[OF c ob]) auto
qed

lemma unregistered_after_remove:
  assumes c: "consistent s" and h: "heap s a = Some ob" and p: "pattern ob = p"
  shows "a \<notin> set (lookup_subs (subscribers (removeSubscriber p a s)) q)"
proof (cases "q = p")
  case True
  have "distinct (lookup_subs (subscribers s) p)" by (rule consistent_distinct_subs[OF c])
  then have "a \<notin> set (remove1 a (lookup_subs (subscribers s) p))" by simp
  then show ?thesis using True
    by (auto simp: removeSubscriber_remove1 lookup_subs_def)
next
  case False
  have "a \<notin> set (lookup_subs (subscribers s) q)"
    using consistent_registered[OF c, of a q] h p False by auto
  then show ?thesis using False
    by (auto simp: removeSubscriber_remove1 lookup_subs_def)
qed

lemma consistent_Subscribe_exit:
  assumes c: "consistent s" and l: "legal (OpExit p a) s"
  shows "consistent (snd (Subscribe_exit p a s))"
proof -
  let ?s1 = "removeSubscriber p a s"
  from l obtain ob where ob: "heap s a = Some ob" "pattern ob = p"
    by (auto split: option.splits)
  have c1: "consistent ?s1" by (rule consistent_removeSubscriber[OF c])
  have h1: "heap ?s1 a = Some ob" using ob by (simp add: removeSubscriber_remove1)
  show ?thesis
  proof (cases "is_closed (events ob)")
    case True
    then show ?thesis using c1 h1 by (simp add: Subscribe_exit_def Let_def close_chan_def)
  next
    case False
    have "consistent (?s1\<lparr>heap := (heap ?s1)(a \<mapsto> ob\<lparr>events := (events ob)\<lparr>is_closed := True\<rparr>\<rparr>)\<rparr>)"
      using unregistered_after_remove[OF c ob]
      by (intro consistent_heap_update[OF c1 h1]) auto
    then show ?thesis using False h1 by (simp add: Subscribe_exit_def Let_def close_chan_def)
  qed
qed

lemma consistent_exec:
  assumes c: "consistent s" and l: "legal x s" and e: "exec x s = Some s'"
  shows "consistent s'"
proof (cases x)
  case (OpGet k)
  with e c show ?thesis by (auto dest: survive_snd)
next
  case (OpSet order now k v)
  with l have "distinct order" by (simp add: range_order_def)
  from consistent_Set[OF c this, of now k v] e OpSet show ?thesis by (auto dest: survive_snd)
next
  case (OpSubscribe p)
  with consistent_Subscribe_register[OF c, of p] e show ?thesis by (auto dest: survive_snd)
next
  case (OpRecv a)
  with e c consistent_Subscribe_recv[OF c] show ?thesis by (auto split: option.splits)
next
  case (OpRemove p a)
  with e consistent_removeSubscriber[OF c] show ?thesis by auto
next
  case (OpExit p a)
  with consistent_Subscribe_exit[OF c] l e show ?thesis by (auto dest: survive_snd)
qed

lemma reachable_consistent: "reachable s \<Longrightarrow> consistent s"
  by (induction rule: reachable.induct) (auto intro: consistent_init consistent_exec)

subsection \<open>Reads after writes\<close>

lemma notifySubscribers_keeps:
  "store (snd (notifySubscribers order e s)) = store s"
  "subscribers (snd (notifySubscribers order e s)) = subscribers s"
  "next_addr (snd (notifySubscribers order e s)) = next_addr s"
  by (simp_all add: notifySubscribers_def split: prod.splits option.splits)

lemma Set_snd:
  "key \<noteq> [] \<Longrightarrow>
     snd (Set order now key val s) =
     snd (notifySubscribers order
            \<lparr>ChangeType = ChangeEvent_SET, Key = key, EventValue = val, Timestamp = now\<rparr>
            (s\<lparr>store := (store s)(key \<mapsto> AString val)\<rparr>))"
  by (simp add: Set_def Let_def split: prod.splits sum.splits)

lemma Set_store:
  "store (snd (Set order now key val s)) =
     (if key = [] then store s else (store s)(key \<mapsto> AString val))"
  by (cases "key = []") (simp_all add: Set_snd notifySubscribers_keeps, simp add: Set_def)

lemma Set_subscribers: "subscribers (snd (Set order now key val s)) = subscribers s"
  by (cases "key = []") (simp_all add: Set_snd notifySubscribers_keeps, simp add: Set_def)

lemma Subscribe_register_store: "store (snd (Subscribe_register p s)) = store s"
  by (simp add: Subscribe_register_def Let_def)

lemma removeSubscriber_store: "store (removeSubscriber p a s) = store s"
  by (simp add: removeSubscriber_remove1)

lemma Subscribe_recv_store: "Subscribe_recv a s = Some (ev, s') \<Longrightarrow> store s' = store s"
  by (auto simp: Subscribe_recv_def split: option.splits recv.splits)

lemma Subscribe_exit_store: "store (snd (Subscribe_exit p a s)) = store s"
  by (simp add: Subscribe_exit_def Let_def removeSubscriber_store
           split: option.splits sum.splits)

lemma exec_store:
  assumes "exec x s = Some s'" and "\<not> writes_key k x"
  shows "store s' k = store s k"
proof (cases x)
  case (OpGet key)
  with assms show ?thesis by (auto dest: survive_snd)
next
  case (OpSet order now key val)
  with assms have "s' = snd (Set order now key val s)" "key \<noteq> k"
    by (auto dest: survive_snd)
  then show ?thesis by (simp add: Set_store)
next
  case (OpSubscribe p)
  with assms have "s' = snd (Subscribe_register p s)" by (auto dest: survive_snd)
  then show ?thesis by (simp add: Subscribe_register_store)
next
  case (OpRecv a)
  with assms show ?thesis by (auto split: option.splits dest: Subscribe_recv_store)
next
  case (OpRemove p a)
  with assms show ?thesis by (auto simp: removeSubscriber_store)
next
  case (OpExit p a)
  with assms have "s' = snd (Subscribe_exit p a s)" by (auto dest: survive_snd)
  then show ?thesis by (simp add: Subscribe_exit_store)
qed

lemma run_store:
  "run ops s = Some s' \<Longrightarrow> \<forall>x\<in>set ops. \<not> writes_key k x \<Longrightarrow> store s' k = store s k"
proof (induction ops arbitrary: s)
  case Nil
  then show ?case by simp
next
  case (Cons x ops)
  from Cons.prems(1) obtain s1 where s1: "exec x s = Some s1" "run ops s1 = Some s'"
    by (auto split: option.splits)
  from Cons.IH[OF s1(2)] Cons.prems(2) have "store s' k = store s1 k" by simp
  also from exec_store[OF s1(1)] Cons.prems(2) have "store s1 k = store s k" by simp
  finally show ?case .
qed

lemma Get_stored:
  "key \<noteq> [] \<Longrightarrow> store s key = Some (AString val) \<Longrightarrow>
     Get key s = (Inr \<lparr>Value = val, Found = True\<rparr>, s)"
  by (simp add: Get_def)

lemma Set_then_store:
  assumes "key \<noteq> []" and "Set order now key val s = (r, s1)"
  shows "store s1 key = Some (AString val)"
proof -
  from assms(2) have "s1 = snd (Set order now key val s)" by simp
  then show ?thesis using assms(1) by (simp add: Set_store)
qed

text \<open>
  Claim C1. For a non-empty key, once \<open>Set key val\<close> has answered, \<open>Get key\<close> answers
  \<open>(val, true)\<close> after any further steps of the service among which no \<open>Set\<close> writes
  that key: reads, writes of other keys, subscriptions, deliveries and removals leave it
  alone. After one more \<open>Set key val2\<close> has answered, \<open>Get key\<close> answers \<open>(val2, true)\<close>, again
  through any such steps.
\<close>

theorem Set_then_Get:
  assumes "key \<noteq> []"
    and "Set order now key val s = (Inr r, s1)"
    and "run ops s1 = Some s2"
    and "\<forall>x\<in>set ops. \<not> writes_key key x"
  shows "Get key s2 = (Inr \<lparr>Value = val, Found = True\<rparr>, s2) \<and>
     (\<forall>order2 now2 val2 r2 s3 ops2 s4.
        Set order2 now2 key val2 s2 = (Inr r2, s3) \<longrightarrow>
        run ops2 s3 = Some s4 \<longrightarrow>
        (\<forall>x\<in>set ops2. \<not> writes_key key x) \<longrightarrow>
        Get key s4 = (Inr \<lparr>Value = val2, Found = True\<rparr>, s4))"
proof -
  have later: "Get key t2 = (Inr \<lparr>Value = v, Found = True\<rparr>, t2)"
    if "Set ord n key v t = (Inr q, t1)" "run xs t1 = Some t2"
       "\<forall>x\<in>set xs. \<not> writes_key key x" for ord n v t q t1 xs t2
  proof -
    have "store t2 key = store t1 key" by (rule run_store[OF that(2,3)])
    also have "\<dots> = Some (AString v)" by (rule Set_then_store[OF assms(1) that(1)])
    finally show ?thesis by (rule Get_stored[OF assms(1)])
  qed
  show ?thesis using later[OF assms(2,3,4)] later by blast
qed

theorem Set_then_Get_witness:
  "(case run [OpGet ''a'', OpSet [] 7 ''b'' ''2'', OpSubscribe ''a'']
           (snd (Set [] 5 ''a'' ''1'' NewKVStoreService)) of
      None \<Rightarrow> False
    | Some s2 \<Rightarrow> fst (Get ''a'' s2) = Inr \<lparr>Value = ''1'', Found = True\<rparr>)"
proof -
  let ?ops = "[OpGet ''a'', OpSet [] 7 ''b'' ''2'', OpSubscribe ''a'']"
  obtain r s1 where h1: "Set [] 5 ''a'' ''1'' NewKVStoreService = (Inr r, s1)"
    by (simp add: Set_def notifySubscribers_def Let_def)
  obtain s2 where h2: "run ?ops s1 = Some s2"
    using h1
    by (auto simp: Set_def notifySubscribers_def Let_def Get_def Subscribe_register_def)
  have h3: "\<forall>x\<in>set ?ops. \<not> writes_key ''a'' x" by simp
  have "''a'' \<noteq> []" by simp
  from Set_then_Get[OF this h1 h2 h3]
  have "Get ''a'' s2 = (Inr \<lparr>Value = ''1'', Found = True\<rparr>, s2)" by blast
  with h1 h2 show ?thesis by simp
qed

subsection \<open>Stored values are strings\<close>

lemma strings_only_exec:
  assumes "strings_only s" and "exec x s = Some s'"
  shows "strings_only s'"
proof (cases x)
  case (OpGet key)
  with assms show ?thesis by (auto dest: survive_snd)
next
  case (OpSet order now key val)
  with assms have "s' = snd (Set order now key val s)" by (auto dest: survive_snd)
  then show ?thesis using assms(1) by (auto simp: strings_only_def Set_store split: if_splits)
next
  case (OpSubscribe p)
  with assms have "s' = snd (Subscribe_register p s)" by (auto dest: survive_snd)
  then show ?thesis using assms(1) by (simp add: strings_only_def Subscribe_register_store)
next
  case (OpRecv a)
  with assms show ?thesis
    by (auto simp: strings_only_def split: option.splits dest!: Subscribe_recv_store)
next
  case (OpRemove p a)
  with assms show ?thesis by (auto simp: strings_only_def removeSubscriber_store)
next
  case (OpExit p a)
  with assms have "s' = snd (Subscribe_exit p a s)" by (auto dest: survive_snd)
  then show ?thesis using assms(1) by (simp add: strings_only_def Subscribe_exit_store)
qed

lemma reachable_strings_only: "reachable s \<Longrightarrow> strings_only s"
proof (induction rule: reachable.induct)
  case init
  show ?case by (simp add: strings_only_def NewKVStoreService_def)
next
  case (step s x s')
  then show ?case by (auto intro: strings_only_exec)
qed

text \<open>
  Claim C9. In every reachable state each stored value is a string, so \<open>Get\<close> on a
  non-empty key answers with a response and never returns the status \<open>Internal\<close>: the
  branch of the failed type assertion is not taken.
\<close>

theorem reachable_Get_no_error:
  assumes "reachable s"
  shows "(\<forall>k v. store s k = Some v \<longrightarrow> (\<exists>str. v = AString str)) \<and>
     (key \<noteq> [] \<longrightarrow>
        (\<exists>resp. Get key s = (Inr resp, s)) \<and>
        (\<forall>msg. fst (Get key s) \<noteq> Inl (Status Internal msg)))"
proof -
  from reachable_strings_only[OF assms]
  have so: "\<forall>k v. store s k = Some v \<longrightarrow> (\<exists>str. v = AString str)"
    by (simp add: strings_only_def)
  then have "store s key = Some v \<Longrightarrow> \<exists>str. v = AString str" for v by blast
  then show ?thesis using so
    by (cases "store s key") (auto simp: Get_def split: any.splits)
qed

theorem reachable_Get_no_error_witness:
  "\<exists>resp. Get ''a'' (snd (Set [] 5 ''a'' ''1'' NewKVStoreService)) =
     (Inr resp, snd (Set [] 5 ''a'' ''1'' NewKVStoreService))"
proof -
  let ?s = "snd (Set [] 5 ''a'' ''1'' NewKVStoreService)"
  have l: "legal (OpSet [] 5 ''a'' ''1'') NewKVStoreService"
    by (simp add: range_order_def NewKVStoreService_def)
  have e: "exec (OpSet [] 5 ''a'' ''1'') NewKVStoreService = Some ?s"
    by (simp add: Set_def notifySubscribers_def Let_def)
  have r: "reachable ?s" by (rule reachable.step[OF reachable.init l e])
  have k: "''a'' \<noteq> []" by simp
  from reachable_Get_no_error[OF r, of "''a''"] k show ?thesis by blast
qed

subsection \<open>Rejected requests and the answer of Set\<close>

text \<open>
  Claim C4. \<open>Set\<close>, \<open>Get\<close> and \<open>Subscribe\<close> with the empty key or pattern return
  \<open>InvalidArgument\<close> and leave the whole state as it was: store, registry and every
  queue.
\<close>

theorem empty_key_InvalidArgument:
  "Set order now '''' val s = (Inl (Status InvalidArgument ''key cannot be empty''), s) \<and>
   Get '''' s = (Inl (Status InvalidArgument ''key cannot be empty''), s) \<and>
   Subscribe_register '''' s =
     (Inl (Status InvalidArgument ''key_pattern cannot be empty''), s)"
  by (simp add: Set_def Get_def Subscribe_register_def)

text \<open>
  Claim C10. Whenever \<open>Set\<close> answers, in either revision, the answer is
  \<open>Success = true\<close> with the message \<^verbatim>\<open>key stored successfully\<close>; and for a non-empty key
  it does answer: always in the revision without events, and in every consistent state
  in the revision with events.
\<close>

theorem Set_answers_success:
  "(\<forall>r s'. Set order now key val s = (Inr r, s') \<longrightarrow>
       r = \<lparr>Success = True, Message = ''key stored successfully''\<rparr>) \<and>
   (\<forall>r s'. Set_v1 key val s = (Inr r, s') \<longrightarrow>
       r = \<lparr>Success = True, Message = ''key stored successfully''\<rparr>) \<and>
   (key \<noteq> [] \<longrightarrow> fst (Set_v1 key val s) =
       Inr \<lparr>Success = True, Message = ''key stored successfully''\<rparr>) \<and>
   (key \<noteq> [] \<and> consistent s \<and> range_order order s \<longrightarrow>
      fst (Set order now key val s) =
        Inr \<lparr>Success = True, Message = ''key stored successfully''\<rparr>)"
proof (intro conjI allI impI)
  fix r s' assume "Set order now key val s = (Inr r, s')"
  then show "r = \<lparr>Success = True, Message = ''key stored successfully''\<rparr>"
    by (auto simp: Set_def Let_def split: if_splits prod.splits sum.splits)
next
  fix r s' assume "Set_v1 key val s = (Inr r, s')"
  then show "r = \<lparr>Success = True, Message = ''key stored successfully''\<rparr>"
    by (auto simp: Set_v1_def split: if_splits)
next
  assume "key \<noteq> []"
  then show "fst (Set_v1 key val s) = Inr \<lparr>Success = True, Message = ''key stored successfully''\<rparr>"
    by (simp add: Set_v1_def)
next
  assume "key \<noteq> [] \<and> consistent s \<and> range_order order s"
  then show "fst (Set order now key val s) =
        Inr \<lparr>Success = True, Message = ''key stored successfully''\<rparr>"
    by (simp add: Set_effect range_order_def)
qed

theorem Set_answers_success_witness:
  "fst (Set [] 5 ''a'' ''1'' NewKVStoreService) =
     Inr \<lparr>Success = True, Message = ''key stored successfully''\<rparr>"
proof -
  have "range_order [] NewKVStoreService"
    by (simp add: range_order_def NewKVStoreService_def)
  with Set_answers_success[of "[]" 5 "''a''" "''1''" NewKVStoreService] consistent_init
  show ?thesis by simp
qed

subsection \<open>Matching by prefix\<close>

lemma prefix_append_iff: "prefix p k \<longleftrightarrow> (\<exists>rest. k = p @ rest)"
  by (simp add: prefix_def)

lemma targets_registered:
  "a \<in> set (targets k m ps) \<Longrightarrow> \<exists>p subs. m p = Some subs \<and> a \<in> set subs \<and> HasPrefix k p"
  by (auto simp: set_targets in_lookup_subs)

lemma targets_iff:
  assumes c: "consistent s" and r: "range_order order s"
    and p: "subscribers s p = Some subs" and a: "a \<in> set subs"
  shows "a \<in> set (targets k (subscribers s) order) \<longleftrightarrow> (\<exists>rest. k = p @ rest)"
proof
  assume "a \<in> set (targets k (subscribers s) order)"
  from targets_registered[OF this] obtain q subs' where
    q: "subscribers s q = Some subs'" "a \<in> set subs'" "HasPrefix k q" by blast
  from c p a q(1,2) have "p = q" unfolding consistent_def by (metis option.inject)
  with q(3) show "\<exists>rest. k = p @ rest"
    by (simp add: HasPrefix_iff_prefix prefix_append_iff)
next
  assume "\<exists>rest. k = p @ rest"
  then have "HasPrefix k p" by (simp add: HasPrefix_iff_prefix prefix_append_iff)
  moreover from r p have "p \<in> set order" by (auto simp: range_order_def)
  moreover from p a have "a \<in> set (lookup_subs (subscribers s) p)" by (simp add: in_lookup_subs)
  ultimately show "a \<in> set (targets k (subscribers s) order)"
    by (auto simp: set_targets)
qed

lemma two_subscribers_eq:
  "two_subscribers =
     \<lparr>store = Map.empty,
      subscribers = [''user:'' \<mapsto> [0], ''user:1'' \<mapsto> [Suc 0]],
      subID = 0,
      heap = [0 \<mapsto> \<lparr>pattern = ''user:'', events = make_chan 100\<rparr>,
              Suc 0 \<mapsto> \<lparr>pattern = ''user:1'', events = make_chan 100\<rparr>],
      next_addr = Suc (Suc 0)\<rparr>"
  by (simp add: two_subscribers_def Subscribe_register_def NewKVStoreService_def Let_def
        lookup_subs_def)

lemma consistent_two_subscribers: "consistent two_subscribers"
  unfolding two_subscribers_def
  by (intro consistent_Subscribe_register consistent_init)

lemma range_order_two_subscribers:
  "range_order order two_subscribers \<longleftrightarrow>
     distinct order \<and> set order = {''user:'', ''user:1''}"
  by (simp add: range_order_def two_subscribers_eq insert_commute)


text \<open>
  Claim C2. In a consistent state, \<^verbatim>\<open>notifySubscribers\<close> returns without a panic, runs
  its \<^verbatim>\<open>select\<close> at most once per subscriber and for registered subscribers only, and
  for each registered subscriber runs it if and only if the key of the event is the
  pattern of the subscriber followed by some rest. A subscriber whose pattern matches gets
  the event at the tail of its queue if the queue has room; one whose pattern does not
  match is left as it was.
\<close>

theorem notify_exact_prefix:
  assumes "consistent s" and "range_order order s"
  shows "\<exists>tr s'. notifySubscribers order e s = (Inr tr, s') \<and>
     distinct (map fst tr) \<and>
     (\<forall>a\<in>fst ` set tr. \<exists>p subs. subscribers s p = Some subs \<and> a \<in> set subs) \<and>
     (\<forall>p subs a. subscribers s p = Some subs \<longrightarrow> a \<in> set subs \<longrightarrow>
        (\<exists>ob. heap s a = Some ob \<and> pattern ob = p \<and>
           (a \<in> fst ` set tr \<longleftrightarrow> (\<exists>rest. Key e = pattern ob @ rest)) \<and>
           heap s' a =
             (if \<exists>rest. Key e = pattern ob @ rest
              then Some (ob\<lparr>events :=
                     if length (buf (events ob)) < cap (events ob)
                     then (events ob)\<lparr>buf := buf (events ob) @ [e]\<rparr>
                     else events ob\<rparr>)
              else Some ob)))"
proof -
  let ?T = "targets (Key e) (subscribers s) order"
  let ?tr = "map (\<lambda>a. (a, has_room (heap s) a)) ?T"
  let ?s' = "s\<lparr>heap := deliver_to e (set ?T) (heap s)\<rparr>"
  from assms(2) have d: "distinct order" by (simp add: range_order_def)
  have dT: "distinct ?T" by (rule consistent_targets_distinct[OF assms(1) d])
  have eq: "notifySubscribers order e s = (Inr ?tr, ?s')"
    by (rule notifySubscribers_effect[OF dT consistent_targets_open[OF assms(1)]])
  have fst_tr: "fst ` set ?tr = set ?T" by (auto simp: image_iff)
  have "map fst ?tr = ?T" by (simp add: comp_def)
  with dT have d_tr: "distinct (map fst ?tr)" by simp
  have reg: "\<forall>a\<in>fst ` set ?tr. \<exists>p subs. subscribers s p = Some subs \<and> a \<in> set subs"
    unfolding fst_tr using targets_registered by blast
  have each: "\<exists>ob. heap s a = Some ob \<and> pattern ob = p \<and>
           (a \<in> fst ` set ?tr \<longleftrightarrow> (\<exists>rest. Key e = pattern ob @ rest)) \<and>
           heap ?s' a =
             (if \<exists>rest. Key e = pattern ob @ rest
              then Some (ob\<lparr>events :=
                     if length (buf (events ob)) < cap (events ob)
                     then (events ob)\<lparr>buf := buf (events ob) @ [e]\<rparr>
                     else events ob\<rparr>)
              else Some ob)"
    if p: "subscribers s p = Some subs" and a: "a \<in> set subs" for p subs a
  proof -
    from p a have "a \<in> set (lookup_subs (subscribers s) p)" by (simp add: in_lookup_subs)
    from consistent_registered[OF assms(1) this] obtain ob where
      ob: "heap s a = Some ob" "pattern ob = p" by blast
    have iff: "a \<in> set ?T \<longleftrightarrow> (\<exists>rest. Key e = p @ rest)"
      by (rule targets_iff[OF assms p a])
    have "heap ?s' a =
             (if \<exists>rest. Key e = p @ rest
              then Some (ob\<lparr>events :=
                     if length (buf (events ob)) < cap (events ob)
                     then (events ob)\<lparr>buf := buf (events ob) @ [e]\<rparr>
                     else events ob\<rparr>)
              else Some ob)"
      using ob(1) iff by (simp add: deliver_to_def deliver_def enqueue_def)
    with ob iff show ?thesis unfolding fst_tr by auto
  qed
  show ?thesis
    using eq d_tr reg each by blast
qed

theorem notify_exact_prefix_witness:
  "\<exists>tr s'. notifySubscribers [''user:'', ''user:1''] (SET_event 5 ''user:999'' ''v'')
               two_subscribers = (Inr tr, s') \<and>
     0 \<in> fst ` set tr \<and> Suc 0 \<notin> fst ` set tr \<and>
     queue_of s' 0 = [SET_event 5 ''user:999'' ''v''] \<and> queue_of s' (Suc 0) = []"
proof -
  let ?e = "SET_event 5 ''user:999'' ''v''"
  have r: "range_order [''user:'', ''user:1''] two_subscribers"
    by (simp add: range_order_two_subscribers)
  have K: "Key ?e = ''user:999''" by (simp add: SET_event_def)
  from notify_exact_prefix[OF consistent_two_subscribers r, of ?e]
  obtain tr s' where n: "notifySubscribers [''user:'', ''user:1''] ?e two_subscribers = (Inr tr, s')"
    and each: "\<forall>p subs a. subscribers two_subscribers p = Some subs \<longrightarrow> a \<in> set subs \<longrightarrow>
        (\<exists>ob. heap two_subscribers a = Some ob \<and> pattern ob = p \<and>
           (a \<in> fst ` set tr \<longleftrightarrow> (\<exists>rest. Key ?e = pattern ob @ rest)) \<and>
           heap s' a =
             (if \<exists>rest. Key ?e = pattern ob @ rest
              then Some (ob\<lparr>events :=
                     if length (buf (events ob)) < cap (events ob)
                     then (events ob)\<lparr>buf := buf (events ob) @ [?e]\<rparr>
                     else events ob\<rparr>)
              else Some ob))"
    by (elim exE conjE)
  have s0: "subscribers two_subscribers ''user:'' = Some [0]"
    and s1: "subscribers two_subscribers ''user:1'' = Some [Suc 0]"
    by (simp_all add: two_subscribers_eq)
  have h0: "heap two_subscribers 0 = Some \<lparr>pattern = ''user:'', events = make_chan 100\<rparr>"
    and h1: "heap two_subscribers (Suc 0) = Some \<lparr>pattern = ''user:1'', events = make_chan 100\<rparr>"
    by (simp_all add: two_subscribers_eq)
  from each[rule_format, OF s0, of 0] h0
  have a0: "0 \<in> fst ` set tr \<and> queue_of s' 0 = [?e]"
    by (simp add: K queue_of_def make_chan_def)
  from each[rule_format, OF s1, of "Suc 0"] h1
  have a1: "Suc 0 \<notin> fst ` set tr \<and> queue_of s' (Suc 0) = []"
    by (simp add: K queue_of_def make_chan_def)
  from n a0 a1 show ?thesis by blast
qed

subsection \<open>The event of a Set\<close>

lemma queue_of_deliver_to:
  "queue_of (s\<lparr>heap := deliver_to e A (heap s)\<rparr>) a =
     (if a \<in> A \<and> has_room (heap s) a then queue_of s a @ [e] else queue_of s a)"
  by (cases "heap s a")
     (auto simp: queue_of_def deliver_to_def deliver_def enqueue_def has_room_def)

lemma Set_queue:
  assumes "key \<noteq> []" and "consistent s" and "distinct order"
  shows "queue_of (snd (Set order now key val s)) a =
     (if a \<in> set (targets key (subscribers s) order) \<and> has_room (heap s) a
      then queue_of s a @ [SET_event now key val] else queue_of s a)"
proof -
  let ?s1 = "s\<lparr>store := (store s)(key \<mapsto> AString val)\<rparr>"
  have "snd (Set order now key val s) =
      ?s1\<lparr>heap := deliver_to (SET_event now key val)
                  (set (targets key (subscribers s) order)) (heap ?s1)\<rparr>"
    by (simp add: Set_effect[OF assms])
  then show ?thesis
    by (simp only: queue_of_deliver_to) (simp add: queue_of_def)
qed

lemma consistent_has_room:
  assumes "consistent s" and "heap s a = Some ob"
  shows "has_room (heap s) a \<longleftrightarrow> length (queue_of s a) < 100"
proof -
  from assms have "cap (events ob) = 100" unfolding consistent_def by blast
  with assms(2) show ?thesis by (simp add: has_room_def queue_of_def)
qed

lemma Set_queue_registered:
  assumes k: "key \<noteq> []" and c: "consistent s" and r: "range_order order s"
    and p: "subscribers s p = Some subs" and a: "a \<in> set subs"
  shows "queue_of (snd (Set order now key val s)) a =
     (if (\<exists>rest. key = p @ rest) \<and> length (queue_of s a) < 100
      then queue_of s a @ [SET_event now key val] else queue_of s a)"
proof -
  from r have d: "distinct order" by (simp add: range_order_def)
  from p a have "a \<in> set (lookup_subs (subscribers s) p)" by (simp add: in_lookup_subs)
  from consistent_registered[OF c this] obtain ob where ob: "heap s a = Some ob" by blast
  show ?thesis
    unfolding Set_queue[OF k c d] targets_iff[OF c r p a] consistent_has_room[OF c ob] ..
qed

lemma Set_queue_any:
  assumes "key \<noteq> []" and "consistent s" and "distinct order"
  shows "queue_of (snd (Set order now key val s)) a = queue_of s a \<or>
         queue_of (snd (Set order now key val s)) a = queue_of s a @ [SET_event now key val]"
  by (simp add: Set_queue[OF assms])

lemma other_ops_queue:
  assumes "exec x t = Some t'" and "\<forall>k. \<not> writes_key k x"
  shows "suffix (queue_of t' a) (queue_of t a)"
proof (cases x)
  case (OpGet key)
  with assms show ?thesis by (auto dest: survive_snd)
next
  case (OpSet order now key val)
  with assms show ?thesis by simp
next
  case (OpSubscribe p)
  with assms have "t' = snd (Subscribe_register p t)" by (auto dest: survive_snd)
  then show ?thesis
    by (simp add: Subscribe_register_def Let_def queue_of_def make_chan_def)
next
  case (OpRecv b)
  show ?thesis
  proof (cases "Subscribe_recv b t")
    case None
    with assms OpRecv show ?thesis by simp
  next
    case (Some r)
    obtain ev u where r: "r = (ev, u)" by (cases r)
    with Some assms OpRecv have t': "t' = u" by simp
    from Some r obtain ob c where ob: "heap t b = Some ob"
      and tr: "try_recv (events ob) = Received ev c"
      and u: "u = t\<lparr>heap := (heap t)(b \<mapsto> ob\<lparr>events := c\<rparr>)\<rparr>"
      by (auto simp: Subscribe_recv_def split: option.splits recv.splits)
    from tr have "suffix (buf c) (buf (events ob))"
      by (auto simp: try_recv_def suffix_Cons split: list.splits if_splits)
    with ob show ?thesis unfolding t' u by (simp add: queue_of_def)
  qed
next
  case (OpRemove p b)
  with assms show ?thesis by (auto simp: queue_of_def removeSubscriber_remove1)
next
  case (OpExit p b)
  with assms have "t' = snd (Subscribe_exit p b t)" by (auto dest: survive_snd)
  then show ?thesis
    by (auto simp: Subscribe_exit_def Let_def queue_of_def removeSubscriber_remove1
          close_chan_def split: option.splits if_splits)
qed

text \<open>
  Claim C8. In a consistent state, \<open>Set\<close> with a non-empty key answers with success,
  stores the value, leaves the registry as it is, and publishes one event: the event
  with change type \<open>SET\<close>, the key, the value and the clock reading of this call. Every
  queue either stays as it was or gains exactly that event at its tail, and the queue of a
  registered subscriber gains it exactly if the pattern matches and the queue holds fewer
  than 100 events. No other step of the service adds an event to a queue: after any step
  that is not a \<open>Set\<close>, every queue is a suffix of what it was.
\<close>
theorem Set_publishes_one_event:
  assumes "key \<noteq> []" and "consistent s" and "range_order order s"
  shows "(\<exists>s'. Set order now key val s =
             (Inr \<lparr>Success = True, Message = ''key stored successfully''\<rparr>, s') \<and>
           store s' = (store s)(key \<mapsto> AString val) \<and>
           subscribers s' = subscribers s \<and>
           (\<forall>a. queue_of s' a = queue_of s a \<or>
                queue_of s' a = queue_of s a @
                  [\<lparr>ChangeType = ChangeEvent_SET, Key = key, EventValue = val,
                    Timestamp = now\<rparr>]) \<and>
           (\<forall>p subs a. subscribers s p = Some subs \<longrightarrow> a \<in> set subs \<longrightarrow>
              queue_of s' a =
                (if (\<exists>rest. key = p @ rest) \<and> length (queue_of s a) < 100
                 then queue_of s a @
                  [\<lparr>ChangeType = ChangeEvent_SET, Key = key, EventValue = val,
                    Timestamp = now\<rparr>]
                 else queue_of s a))) \<and>
         (\<forall>x t t' a. (\<forall>k. \<not> writes_key k x) \<longrightarrow> exec x t = Some t' \<longrightarrow>
            suffix (queue_of t' a) (queue_of t a))"
proof -
  let ?s' = "snd (Set order now key val s)"
  from assms(3) have d: "distinct order" by (simp add: range_order_def)
  have 1: "Set order now key val s =
             (Inr \<lparr>Success = True, Message = ''key stored successfully''\<rparr>, ?s')"
    by (simp add: Set_effect[OF assms(1,2) d])
  have 2: "store ?s' = (store s)(key \<mapsto> AString val)"
    using assms(1) by (simp add: Set_store)
  have 3: "subscribers ?s' = subscribers s" by (rule Set_subscribers)
  have 4: "\<forall>a. queue_of ?s' a = queue_of s a \<or>
                queue_of ?s' a = queue_of s a @
                  [\<lparr>ChangeType = ChangeEvent_SET, Key = key, EventValue = val,
                    Timestamp = now\<rparr>]"
    using Set_queue_any[OF assms(1,2) d] by (simp add: SET_event_def)
  have 5: "\<forall>p subs a. subscribers s p = Some subs \<longrightarrow> a \<in> set subs \<longrightarrow>
              queue_of ?s' a =
                (if (\<exists>rest. key = p @ rest) \<and> length (queue_of s a) < 100
                 then queue_of s a @
                  [\<lparr>ChangeType = ChangeEvent_SET, Key = key, EventValue = val,
                    Timestamp = now\<rparr>]
                 else queue_of s a)"
    using Set_queue_registered[OF assms] by (simp add: SET_event_def)
  have 6: "\<forall>x t t' a. (\<forall>k. \<not> writes_key k x) \<longrightarrow> exec x t = Some t' \<longrightarrow>
            suffix (queue_of t' a) (queue_of t a)"
    using other_ops_queue by blast
  from 1 2 3 4 5 have "\<exists>s'. Set order now key val s =
             (Inr \<lparr>Success = True, Message = ''key stored successfully''\<rparr>, s') \<and>
           store s' = (store s)(key \<mapsto> AString val) \<and>
           subscribers s' = subscribers s \<and>
           (\<forall>a. queue_of s' a = queue_of s a \<or>
                queue_of s' a = queue_of s a @
                  [\<lparr>ChangeType = ChangeEvent_SET, Key = key, EventValue = val,
                    Timestamp = now\<rparr>]) \<and>
           (\<forall>p subs a. subscribers s p = Some subs \<longrightarrow> a \<in> set subs \<longrightarrow>
              queue_of s' a =
                (if (\<exists>rest. key = p @ rest) \<and> length (queue_of s a) < 100
                 then queue_of s a @
                  [\<lparr>ChangeType = ChangeEvent_SET, Key = key, EventValue = val,
                    Timestamp = now\<rparr>]
                 else queue_of s a))"
    by (intro exI[of _ ?s'] conjI)
  from this 6 show ?thesis by (rule conjI)
qed

lemma two_subscribers_entries:
  "subscribers two_subscribers ''user:'' = Some [0]"
  "subscribers two_subscribers ''user:1'' = Some [Suc 0]"
  "queue_of two_subscribers 0 = []"
  "queue_of two_subscribers (Suc 0) = []"
  by (simp_all add: two_subscribers_eq queue_of_def make_chan_def)

theorem Set_publishes_one_event_witness:
  "\<exists>s'. Set [''user:'', ''user:1''] 5 ''user:123'' ''v'' two_subscribers =
          (Inr \<lparr>Success = True, Message = ''key stored successfully''\<rparr>, s') \<and>
        store s' ''user:123'' = Some (AString ''v'') \<and>
        queue_of s' 0 =
          [\<lparr>ChangeType = ChangeEvent_SET, Key = ''user:123'', EventValue = ''v'',
            Timestamp = 5\<rparr>]"
proof -
  have k: "''user:123'' \<noteq> []" by simp
  have r: "range_order [''user:'', ''user:1''] two_subscribers"
    by (simp add: range_order_two_subscribers)
  from Set_publishes_one_event[OF k consistent_two_subscribers r, of 5 "''v''"]
  obtain s' where
    1: "Set [''user:'', ''user:1''] 5 ''user:123'' ''v'' two_subscribers =
          (Inr \<lparr>Success = True, Message = ''key stored successfully''\<rparr>, s')"
    and 2: "store s' = (store two_subscribers)(''user:123'' \<mapsto> AString ''v'')"
    and 5: "\<forall>p subs a. subscribers two_subscribers p = Some subs \<longrightarrow> a \<in> set subs \<longrightarrow>
              queue_of s' a =
                (if (\<exists>rest. ''user:123'' = p @ rest) \<and> length (queue_of two_subscribers a) < 100
                 then queue_of two_subscribers a @
                  [\<lparr>ChangeType = ChangeEvent_SET, Key = ''user:123'', EventValue = ''v'',
                    Timestamp = 5\<rparr>]
                 else queue_of two_subscribers a)"
    by (elim exE conjE)
  from 5[rule_format, OF two_subscribers_entries(1), of 0]
  have q: "queue_of s' 0 =
          [\<lparr>ChangeType = ChangeEvent_SET, Key = ''user:123'', EventValue = ''v'',
            Timestamp = 5\<rparr>]"
    by (simp add: two_subscribers_entries)
  from 2 have "store s' ''user:123'' = Some (AString ''v'')" by simp
  with 1 q show ?thesis by blast
qed

subsection \<open>Overlapping prefixes\<close>

text \<open>
  Claim C5, amended. With the subscriber at address 0 under \<^verbatim>\<open>user:\<close> and the subscriber
  at address 1 under \<^verbatim>\<open>user:1\<close>, both queues empty: \<^verbatim>\<open>Set("user:123", "v")\<close> puts its event
  into both queues, and \<^verbatim>\<open>Set("user:999", "v")\<close> puts its event into the queue of the
  first subscriber only, since \<^verbatim>\<open>user:999\<close> begins with \<^verbatim>\<open>user:\<close> and not with \<^verbatim>\<open>user:1\<close>.
  This holds for either order in which \<^verbatim>\<open>range\<close> visits the two patterns.
\<close>
theorem overlapping_prefixes:
  assumes "range_order order two_subscribers"
  shows "queue_of (snd (Set order now ''user:123'' ''v'' two_subscribers)) 0 =
           [SET_event now ''user:123'' ''v''] \<and>
         queue_of (snd (Set order now ''user:123'' ''v'' two_subscribers)) (Suc 0) =
           [SET_event now ''user:123'' ''v''] \<and>
         queue_of (snd (Set order now ''user:999'' ''v'' two_subscribers)) 0 =
           [SET_event now ''user:999'' ''v''] \<and>
         queue_of (snd (Set order now ''user:999'' ''v'' two_subscribers)) (Suc 0) = [] \<and>
         fst (Set order now ''user:123'' ''v'' two_subscribers) =
           Inr \<lparr>Success = True, Message = ''key stored successfully''\<rparr> \<and>
         fst (Set order now ''user:999'' ''v'' two_subscribers) =
           Inr \<lparr>Success = True, Message = ''key stored successfully''\<rparr>"
proof -
  note c = consistent_two_subscribers
  from assms have d: "distinct order" by (simp add: range_order_def)
  have k1: "''user:123'' \<noteq> []" and k2: "''user:999'' \<noteq> []" by simp_all
  have a: "queue_of (snd (Set order now ''user:123'' ''v'' two_subscribers)) 0 =
           [SET_event now ''user:123'' ''v'']"
    by (simp add: Set_queue_registered[OF k1 c assms two_subscribers_entries(1)]
          two_subscribers_entries)
  have b: "queue_of (snd (Set order now ''user:123'' ''v'' two_subscribers)) (Suc 0) =
           [SET_event now ''user:123'' ''v'']"
    by (simp add: Set_queue_registered[OF k1 c assms two_subscribers_entries(2)]
          two_subscribers_entries)
  have e: "queue_of (snd (Set order now ''user:999'' ''v'' two_subscribers)) 0 =
           [SET_event now ''user:999'' ''v'']"
    by (simp add: Set_queue_registered[OF k2 c assms two_subscribers_entries(1)]
          two_subscribers_entries)
  have f: "queue_of (snd (Set order now ''user:999'' ''v'' two_subscribers)) (Suc 0) = []"
    by (simp add: Set_queue_registered[OF k2 c assms two_subscribers_entries(2)]
          two_subscribers_entries)
  have g: "fst (Set order now ''user:123'' ''v'' two_subscribers) =
           Inr \<lparr>Success = True, Message = ''key stored successfully''\<rparr>"
    by (simp add: Set_effect[OF k1 c d])
  have h: "fst (Set order now ''user:999'' ''v'' two_subscribers) =
           Inr \<lparr>Success = True, Message = ''key stored successfully''\<rparr>"
    by (simp add: Set_effect[OF k2 c d])
  from a b e f g h show ?thesis by (intro conjI)
qed

theorem overlapping_prefixes_witness:
  "queue_of (snd (Set [''user:1'', ''user:''] 9 ''user:123'' ''v'' two_subscribers)) (Suc 0) =
     [SET_event 9 ''user:123'' ''v''] \<and>
   queue_of (snd (Set [''user:1'', ''user:''] 9 ''user:999'' ''v'' two_subscribers)) 0 =
     [SET_event 9 ''user:999'' ''v'']"
proof -
  have r: "range_order [''user:1'', ''user:''] two_subscribers"
    by (simp add: range_order_two_subscribers insert_commute)
  from overlapping_prefixes[OF r, of 9] show ?thesis by (elim conjE) (intro conjI)
qed

text \<open>
  Claim C5 as stated has \<^verbatim>\<open>Set("user:999", "v")\<close> deliver to the subscriber under
  \<^verbatim>\<open>user:1\<close> and not to the one under \<^verbatim>\<open>user:\<close>. That is not what happens.
\<close>
theorem user999_misses_second_subscriber:
  "\<not> (queue_of (snd (Set [''user:'', ''user:1''] 5 ''user:999'' ''v'' two_subscribers)) (Suc 0) =
        [SET_event 5 ''user:999'' ''v''] \<and>
      queue_of (snd (Set [''user:'', ''user:1''] 5 ''user:999'' ''v'' two_subscribers)) 0 = [])"
proof -
  have r: "range_order [''user:'', ''user:1''] two_subscribers"
    by (simp add: range_order_two_subscribers)
  have k: "''user:999'' \<noteq> []" by simp
  have "queue_of (snd (Set [''user:'', ''user:1''] 5 ''user:999'' ''v'' two_subscribers)) (Suc 0) = []"
    by (simp add: Set_queue_registered[OF k consistent_two_subscribers r two_subscribers_entries(2)]
          two_subscribers_entries)
  then show ?thesis by simp
qed

subsection \<open>A full queue\<close>

lemma take_take_append: "take n (take n xs @ ys) = take n (xs @ ys)"
  by (cases "length xs \<le> n") (simp_all add: min_def)

lemma range_order_cong: "subscribers s' = subscribers s \<Longrightarrow> range_order order s' = range_order order s"
  by (simp add: range_order_def)

lemma Set_seq_fifo:
  assumes p: "subscribers s p = Some subs" and a: "a \<in> set subs"
  shows "consistent s \<Longrightarrow>
     \<forall>(order, now, key, val)\<in>set calls. range_order order s \<and> (\<exists>rest. key = p @ rest) \<Longrightarrow>
     \<exists>s'. Set_seq calls s = Inr s' \<and> consistent s' \<and> subscribers s' = subscribers s \<and>
          queue_of s' a = take 100 (queue_of s a @ map event_of calls)"
  using p
proof (induction calls arbitrary: s)
  case Nil
  from Nil.prems(3) a have "a \<in> set (lookup_subs (subscribers s) p)"
    by (simp add: in_lookup_subs)
  from consistent_registered[OF Nil.prems(1) this] obtain ob where ob: "heap s a = Some ob"
    by blast
  with Nil.prems(1) have "length (buf (events ob)) \<le> 100" unfolding consistent_def by blast
  with ob have "length (queue_of s a) \<le> 100" by (simp add: queue_of_def)
  with Nil.prems(1) show ?case by simp
next
  case (Cons c calls)
  obtain order now key val where c: "c = (order, now, key, val)" by (cases c)
  from Cons.prems(2) c have r: "range_order order s" and m: "\<exists>rest. key = p @ rest"
    by auto
  from Cons.prems(1,3) have "p \<noteq> []" unfolding consistent_def by blast
  with m have k: "key \<noteq> []" by auto
  from r have d: "distinct order" by (simp add: range_order_def)
  let ?s1 = "snd (Set order now key val s)"
  have ans: "Set order now key val s =
      (Inr \<lparr>Success = True, Message = ''key stored successfully''\<rparr>, ?s1)"
    by (simp add: Set_effect[OF k Cons.prems(1) d])
  have c1: "consistent ?s1" by (rule consistent_Set[OF Cons.prems(1) d])
  have sub1: "subscribers ?s1 = subscribers s" by (rule Set_subscribers)
  have p1: "subscribers ?s1 p = Some subs" using Cons.prems(3) sub1 by simp
  have rest: "\<forall>(order, now, key, val)\<in>set calls.
       range_order order ?s1 \<and> (\<exists>rest. key = p @ rest)"
    using Cons.prems(2) by (auto simp: range_order_cong[OF sub1])
  from Cons.IH[OF c1 rest p1] obtain s' where
    s': "Set_seq calls ?s1 = Inr s'" "consistent s'" "subscribers s' = subscribers ?s1"
        "queue_of s' a = take 100 (queue_of ?s1 a @ map event_of calls)" by blast
  from Cons.prems(3) a have "a \<in> set (lookup_subs (subscribers s) p)"
    by (simp add: in_lookup_subs)
  from consistent_registered[OF Cons.prems(1) this] obtain ob where ob: "heap s a = Some ob"
    by blast
  with Cons.prems(1) have "length (buf (events ob)) \<le> 100" unfolding consistent_def by blast
  with ob have len: "length (queue_of s a) \<le> 100" by (simp add: queue_of_def)
  have q1: "queue_of ?s1 a = take 100 (queue_of s a @ [SET_event now key val])"
    using Set_queue_registered[OF k Cons.prems(1) r Cons.prems(3) a, of now val] m len
    by (cases "length (queue_of s a) < 100") auto
  have "queue_of s' a = take 100 (queue_of s a @ map event_of (c # calls))"
    unfolding s'(4) q1 take_take_append by (simp add: c)
  moreover have "Set_seq (c # calls) s = Inr s'"
    unfolding c by (subst Set_seq.simps, subst ans) (simp add: s'(1))
  ultimately show ?case using s'(2,3) sub1 by simp
qed

text \<open>
  Claim C3. A subscriber is registered with an empty queue, and a writer issues 101
  \<open>Set\<close> calls whose keys all match its pattern, with nothing received in between. Then
  after the first \<open>n\<close> calls, for every \<open>n\<close> up to 101, no call has failed, the queue
  holds at most 100 events, and it holds the events of the first \<open>min n 100\<close> calls in the
  order of the calls: after 100 calls the first 100 events, after 101 calls the same 100
  events, the last one having been dropped.
\<close>
theorem full_queue_drops_newest:
  assumes "consistent s"
    and "subscribers s p = Some subs" and "a \<in> set subs"
    and "queue_of s a = []"
    and "length calls = 101"
    and "\<forall>(order, now, key, val)\<in>set calls. range_order order s \<and> (\<exists>rest. key = p @ rest)"
  shows "\<forall>n\<le>101. \<exists>s'. Set_seq (take n calls) s = Inr s' \<and>
           length (queue_of s' a) \<le> 100 \<and>
           queue_of s' a = map event_of (take (min n 100) calls)"
proof (intro allI impI)
  fix n :: nat assume "n \<le> 101"
  have "\<forall>(order, now, key, val)\<in>set (take n calls).
          range_order order s \<and> (\<exists>rest. key = p @ rest)"
    using assms(6) by (auto dest: in_set_takeD)
  from Set_seq_fifo[OF assms(2,3,1) this] obtain s' where
    s': "Set_seq (take n calls) s = Inr s'"
        "queue_of s' a = take 100 (queue_of s a @ map event_of (take n calls))" by blast
  have "queue_of s' a = map event_of (take (min n 100) calls)"
    unfolding s'(2) assms(4) by (simp add: take_map min.commute)
  with s'(1) show "\<exists>s'. Set_seq (take n calls) s = Inr s' \<and>
           length (queue_of s' a) \<le> 100 \<and>
           queue_of s' a = map event_of (take (min n 100) calls)"
    by (intro exI[of _ s']) simp
qed

lemma one_subscriber_eq:
  "one_subscriber =
     \<lparr>store = Map.empty, subscribers = [''k'' \<mapsto> [0]], subID = 0,
      heap = [0 \<mapsto> \<lparr>pattern = ''k'', events = make_chan 100\<rparr>], next_addr = Suc 0\<rparr>"
  by (simp add: one_subscriber_def Subscribe_register_def NewKVStoreService_def Let_def
        lookup_subs_def)

lemma consistent_one_subscriber: "consistent one_subscriber"
  unfolding one_subscriber_def by (intro consistent_Subscribe_register consistent_init)

theorem full_queue_drops_newest_witness:
  "\<exists>s'. Set_seq (replicate 101 ([''k''], 5, ''k1'', ''v'')) one_subscriber = Inr s' \<and>
        queue_of s' 0 = replicate 100 (SET_event 5 ''k1'' ''v'')"
proof -
  let ?calls = "replicate 101 ([''k''], 5 :: 64 word, ''k1'', ''v'')"
  have 2: "subscribers one_subscriber ''k'' = Some [0]" by (simp add: one_subscriber_eq)
  have 3: "(0::nat) \<in> set [0]" by simp
  have 4: "queue_of one_subscriber 0 = []"
    by (simp add: one_subscriber_eq queue_of_def make_chan_def)
  have 5: "length ?calls = 101" by simp
  have 6: "\<forall>(order, now, key, val)\<in>set ?calls.
             range_order order one_subscriber \<and> (\<exists>rest. key = ''k'' @ rest)"
    by (simp add: range_order_def one_subscriber_eq)
  from full_queue_drops_newest[OF consistent_one_subscriber 2 3 4 5 6, rule_format, of 101]
  obtain s' where "Set_seq ?calls one_subscriber = Inr s'"
    "queue_of s' 0 = map event_of (take (min 101 100) ?calls)" by auto
  then show ?thesis by (intro exI[of _ s']) simp
qed

subsection \<open>Removing subscribers\<close>

lemma consistent_no_empty: "consistent s \<Longrightarrow> subscribers s p \<noteq> Some []"
  unfolding consistent_def by blast

lemma removeSubscriber_absent:
  assumes c: "consistent s" and n: "a \<notin> set (lookup_subs (subscribers s) p)"
  shows "removeSubscriber p a s = s"
proof (cases "subscribers s p")
  case None
  then have "(subscribers s)(p := None) = subscribers s" by (simp add: fun_upd_idem_iff)
  with None show ?thesis by (simp add: removeSubscriber_remove1 lookup_subs_def)
next
  case (Some subs)
  with consistent_no_empty[OF c, of p] have ne: "subs \<noteq> []" by simp
  from n Some have "remove1 a subs = subs" by (simp add: lookup_subs_def remove1_idem)
  moreover from Some have "(subscribers s)(p \<mapsto> subs) = subscribers s"
    by (simp add: fun_upd_idem_iff)
  ultimately show ?thesis using Some ne
    by (simp add: removeSubscriber_remove1 lookup_subs_def)
qed

lemma lookup_after_remove:
  "lookup_subs (subscribers (removeSubscriber p a s)) q =
     (if q = p then remove1 a (lookup_subs (subscribers s) p)
      else lookup_subs (subscribers s) q)"
  by (simp add: removeSubscriber_remove1 lookup_subs_def)

text \<open>
  Claim C6. In every reachable state no pattern of the registry has the empty list;
  \<^verbatim>\<open>removeSubscriber\<close> on the only subscriber of a pattern deletes the entry of the
  pattern, and no call of \<^verbatim>\<open>removeSubscriber\<close> leaves an empty list behind.
\<close>
theorem registry_has_no_empty_entry:
  assumes "reachable s"
  shows "(\<forall>p. subscribers s p \<noteq> Some []) \<and>
         (\<forall>p a. subscribers s p = Some [a] \<longrightarrow>
            subscribers (removeSubscriber p a s) p = None) \<and>
         (\<forall>p a. subscribers (removeSubscriber p a s) p \<noteq> Some [])"
proof (intro conjI allI impI)
  fix p
  show "subscribers s p \<noteq> Some []"
    by (rule consistent_no_empty[OF reachable_consistent[OF assms]])
next
  fix p a assume "subscribers s p = Some [a]"
  then show "subscribers (removeSubscriber p a s) p = None"
    by (simp add: removeSubscriber_remove1 lookup_subs_def)
next
  fix p a
  show "subscribers (removeSubscriber p a s) p \<noteq> Some []"
    by (rule consistent_no_empty[OF consistent_removeSubscriber[OF reachable_consistent[OF assms]]])
qed

lemma reachable_one_subscriber: "reachable one_subscriber"
proof -
  have "exec (OpSubscribe ''k'') NewKVStoreService = Some one_subscriber"
    by (simp add: one_subscriber_def Subscribe_register_def Let_def)
  moreover have "legal (OpSubscribe ''k'') NewKVStoreService" by simp
  ultimately show ?thesis by (rule reachable.step[OF reachable.init, rotated])
qed

theorem registry_has_no_empty_entry_witness:
  "subscribers one_subscriber ''k'' = Some [0] \<and>
   subscribers (removeSubscriber ''k'' 0 one_subscriber) ''k'' = None"
proof -
  have 1: "subscribers one_subscriber ''k'' = Some [0]" by (simp add: one_subscriber_eq)
  from registry_has_no_empty_entry[OF reachable_one_subscriber]
  have "\<forall>p a. subscribers one_subscriber p = Some [a] \<longrightarrow>
            subscribers (removeSubscriber p a one_subscriber) p = None" by (elim conjE)
  from this[rule_format, OF 1] 1 show ?thesis by (intro conjI)
qed

text \<open>
  Claim C7. In a consistent state (every reachable state is one, by
  \<open>reachable_consistent\<close>), \<^verbatim>\<open>removeSubscriber\<close> on a subscriber that is not registered
  under the pattern returns the state as it was; a second removal after a first changes
  nothing; after a removal the subscriber is not in the list of the pattern, the list is
  shorter by one if it was there, every other subscriber of that pattern is still there,
  and the other patterns, the store and the subscriber objects are as before.
\<close>
theorem removeSubscriber_by_identity:
  assumes "consistent s"
  shows "(a \<notin> set (lookup_subs (subscribers s) p) \<longrightarrow> removeSubscriber p a s = s) \<and>
         removeSubscriber p a (removeSubscriber p a s) = removeSubscriber p a s \<and>
         a \<notin> set (lookup_subs (subscribers (removeSubscriber p a s)) p) \<and>
         (a \<in> set (lookup_subs (subscribers s) p) \<longrightarrow>
            length (lookup_subs (subscribers (removeSubscriber p a s)) p) + 1 =
            length (lookup_subs (subscribers s) p)) \<and>
         (\<forall>b. b \<noteq> a \<longrightarrow>
            (b \<in> set (lookup_subs (subscribers (removeSubscriber p a s)) p) \<longleftrightarrow>
             b \<in> set (lookup_subs (subscribers s) p))) \<and>
         (\<forall>q. q \<noteq> p \<longrightarrow>
            subscribers (removeSubscriber p a s) q = subscribers s q) \<and>
         store (removeSubscriber p a s) = store s \<and>
         heap (removeSubscriber p a s) = heap s"
proof -
  let ?L = "lookup_subs (subscribers s) p"
  let ?s' = "removeSubscriber p a s"
  have d: "distinct ?L" by (rule consistent_distinct_subs[OF assms])
  have L': "lookup_subs (subscribers ?s') p = remove1 a ?L" by (simp add: lookup_after_remove)
  have 1: "a \<notin> set ?L \<longrightarrow> ?s' = s"
    using removeSubscriber_absent[OF assms] by blast
  have 3: "a \<notin> set (lookup_subs (subscribers ?s') p)"
    unfolding L' using d by simp
  have 2: "removeSubscriber p a ?s' = ?s'"
    by (rule removeSubscriber_absent[OF consistent_removeSubscriber[OF assms] 3])
  have 4: "a \<in> set ?L \<longrightarrow> length (lookup_subs (subscribers ?s') p) + 1 = length ?L"
    unfolding L' by (auto simp: length_remove1 intro: Suc_pred length_pos_if_in_set)
  have 5: "\<forall>b. b \<noteq> a \<longrightarrow> (b \<in> set (lookup_subs (subscribers ?s') p) \<longleftrightarrow> b \<in> set ?L)"
    unfolding L' using d by simp
  have 6: "\<forall>q. q \<noteq> p \<longrightarrow> subscribers ?s' q = subscribers s q"
    by (simp add: removeSubscriber_remove1)
  have 7: "store ?s' = store s" "heap ?s' = heap s"
    by (simp_all add: removeSubscriber_remove1)
  from 1 2 3 4 5 6 7 show ?thesis by (intro conjI)
qed

lemma shared_prefix_eq:
  "shared_prefix =
     \<lparr>store = Map.empty, subscribers = [''k'' \<mapsto> [0, Suc 0]], subID = 0,
      heap = [0 \<mapsto> \<lparr>pattern = ''k'', events = make_chan 100\<rparr>,
              Suc 0 \<mapsto> \<lparr>pattern = ''k'', events = make_chan 100\<rparr>],
      next_addr = Suc (Suc 0)\<rparr>"
  by (simp add: shared_prefix_def one_subscriber_eq Subscribe_register_def Let_def
        lookup_subs_def)

lemma consistent_shared_prefix: "consistent shared_prefix"
  unfolding shared_prefix_def by (intro consistent_Subscribe_register consistent_one_subscriber)

theorem removeSubscriber_by_identity_witness:
  "removeSubscriber ''k'' 0 (removeSubscriber ''k'' 0 shared_prefix) =
     removeSubscriber ''k'' 0 shared_prefix \<and>
   0 \<notin> set (lookup_subs (subscribers (removeSubscriber ''k'' 0 shared_prefix)) ''k'') \<and>
   Suc 0 \<in> set (lookup_subs (subscribers (removeSubscriber ''k'' 0 shared_prefix)) ''k'')"
proof -
  have in1: "Suc 0 \<in> set (lookup_subs (subscribers shared_prefix) ''k'')"
    by (simp add: shared_prefix_eq lookup_subs_def)
  note t = removeSubscriber_by_identity[OF consistent_shared_prefix, of 0 "''k''"]
  from t have 2: "removeSubscriber ''k'' 0 (removeSubscriber ''k'' 0 shared_prefix) =
     removeSubscriber ''k'' 0 shared_prefix"
    by (elim conjE)
  from t have 3:
    "0 \<notin> set (lookup_subs (subscribers (removeSubscriber ''k'' 0 shared_prefix)) ''k'')"
    by (elim conjE)
  from t have 5: "\<forall>b. b \<noteq> 0 \<longrightarrow>
            (b \<in> set (lookup_subs (subscribers (removeSubscriber ''k'' 0 shared_prefix)) ''k'') \<longleftrightarrow>
             b \<in> set (lookup_subs (subscribers shared_prefix) ''k''))"
    by (elim conjE)
  from 5[rule_format, of "Suc 0"] in1
  have "Suc 0 \<in> set (lookup_subs (subscribers (removeSubscriber ''k'' 0 shared_prefix)) ''k'')"
    by simp
  with 2 3 show ?thesis by (intro conjI)
qed

subsection \<open>The two revisions of Set, and runs that can go on\<close>

text \<open>
  The revision of \<open>Set\<close> without events leaves the same store and the same registry as
  the one with events. The registry of a reachable state has finitely many patterns, so a
  \<^verbatim>\<open>range\<close> over it has an order, and \<open>Set\<close> on a non-empty key answers there.
\<close>

lemma Set_v1_same_store:
  "store (snd (Set_v1 key val s)) = store (snd (Set order now key val s)) \<and>
   subscribers (snd (Set_v1 key val s)) = subscribers (snd (Set order now key val s))"
  by (simp add: Set_v1_def Set_store Set_subscribers)

lemma Subscribe_recv_subscribers:
  "Subscribe_recv a s = Some (ev, s') \<Longrightarrow> subscribers s' = subscribers s"
  by (auto simp: Subscribe_recv_def split: option.splits recv.splits)

lemma finite_dom_removeSubscriber:
  "finite (dom (subscribers s)) \<Longrightarrow> finite (dom (subscribers (removeSubscriber p a s)))"
  by (simp add: removeSubscriber_remove1)

lemma Subscribe_exit_subscribers:
  "subscribers (snd (Subscribe_exit p a s)) = subscribers (removeSubscriber p a s)"
  by (simp add: Subscribe_exit_def Let_def split: option.splits sum.splits)

lemma finite_dom_exec:
  assumes f: "finite (dom (subscribers s))" and e: "exec x s = Some s'"
  shows "finite (dom (subscribers s'))"
proof (cases x)
  case (OpGet key)
  with e f show ?thesis by (auto dest: survive_snd)
next
  case (OpSet order now key val)
  with e have "s' = snd (Set order now key val s)" by (auto dest: survive_snd)
  with f show ?thesis by (simp add: Set_subscribers)
next
  case (OpSubscribe p)
  with e have "s' = snd (Subscribe_register p s)" by (auto dest: survive_snd)
  with f show ?thesis by (simp add: Subscribe_register_def Let_def)
next
  case (OpRecv a)
  with e f show ?thesis by (auto split: option.splits dest!: Subscribe_recv_subscribers)
next
  case (OpRemove p a)
  with e finite_dom_removeSubscriber[OF f] show ?thesis by auto
next
  case (OpExit p a)
  with e have "s' = snd (Subscribe_exit p a s)" by (auto dest: survive_snd)
  with finite_dom_removeSubscriber[OF f] show ?thesis by (simp add: Subscribe_exit_subscribers)
qed

lemma reachable_finite_dom: "reachable s \<Longrightarrow> finite (dom (subscribers s))"
proof (induction rule: reachable.induct)
  case init
  show ?case by (simp add: NewKVStoreService_def)
next
  case (step s x s')
  then show ?case by (auto intro: finite_dom_exec)
qed

lemma reachable_range_order: "reachable s \<Longrightarrow> \<exists>order. range_order order s"
  using finite_distinct_list[OF reachable_finite_dom, of s] by (auto simp: range_order_def)

lemma reachable_Set_answers:
  assumes "reachable s" and "key \<noteq> []"
  shows "\<exists>order. range_order order s \<and>
     (\<forall>now val. fst (Set order now key val s) =
        Inr \<lparr>Success = True, Message = ''key stored successfully''\<rparr>)"
proof -
  from reachable_range_order[OF assms(1)] obtain order where r: "range_order order s" ..
  then have d: "distinct order" by (simp add: range_order_def)
  have "fst (Set order now key val s) =
        Inr \<lparr>Success = True, Message = ''key stored successfully''\<rparr>" for now val
    by (simp add: Set_effect[OF assms(2) reachable_consistent[OF assms(1)] d])
  with r show ?thesis by blast
qed

end
